theory Spec2Isabelle
  imports Complex_Main "HOL-Library.Word"
begin

section \<open>The beacon frame packer of frame.cpp\<close>

text \<open>
  The model follows \<^verbatim>\<open>src/minigotchi-ESP32/frame.cpp\<close>. Bytes are 8-bit words. The
  static members of class Frame are the fields of a record that every operation takes
  and returns. Sizes and loop counters (\<^verbatim>\<open>size_t\<close>, \<^verbatim>\<open>int\<close>) are natural numbers:
  a String on the target is far shorter than \<open>2 ^ 31\<close> bytes, so that arithmetic is
  exact; the two narrowing conversions to \<^verbatim>\<open>uint8_t\<close> (the header-length estimate
  and the length byte) are written with 8-bit words, which wrap. Indexing
  \<^verbatim>\<open>std::vector\<close> outside its size is undefined in C++; the model makes it the
  error \<open>OutOfBounds\<close>.
\<close>

type_synonym u8 = "8 word"

datatype error = OutOfBounds

definition chunkSize :: nat where
  "chunkSize = 0xFF"

definition IDWhisperPayload :: u8 where
  "IDWhisperPayload = 0xDE"

definition header :: "u8 list" where
  "header =
    [0x80, 0x00,
     0x00, 0x00,
     0xff, 0xff, 0xff, 0xff, 0xff, 0xff,
     0xde, 0xad, 0xbe, 0xef, 0xde, 0xad,
     0xa1, 0x00, 0x64, 0xe6, 0x0b, 0x8b,
     0x40, 0x43,
     0x00, 0x00, 0x00, 0x00, 0x00, 0x00, 0x00, 0x00,
     0x64, 0x00,
     0x11, 0x04]"

text \<open>\<^verbatim>\<open>pwngridHeaderLength = sizeof(Frame::header)\<close>.\<close>

definition pwngridHeaderLength :: nat where
  "pwngridHeaderLength = length header"

record frame =
  beaconFrame :: "u8 list"
  payloadSize :: nat
  essidLength :: nat
  headerLength :: u8

text \<open>The static initialisers: an empty vector, \<^verbatim>\<open>payloadSize = 255\<close> "by default".\<close>

definition Frame_init :: frame where
  "Frame_init = \<lparr>beaconFrame = [], payloadSize = 255, essidLength = 0, headerLength = 0\<rparr>"

text \<open>
  \<^verbatim>\<open>isAscii\<close> of the Arduino core is \<^verbatim>\<open>isascii\<close>: true exactly for the 7-bit codes.
  \<^verbatim>\<open>String::operator[]\<close> returns 0 for an index past the end.
\<close>

definition isAscii :: "u8 \<Rightarrow> bool" where
  "isAscii c = (c < 0x80)"

definition charAt :: "u8 list \<Rightarrow> nat \<Rightarrow> u8" where
  "charAt s i = (if i < length s then s ! i else 0)"

text \<open>\<^verbatim>\<open>std::vector::resize\<close>: keeps the old elements, fills new ones with 0.\<close>

definition resize_vec :: "nat \<Rightarrow> u8 list \<Rightarrow> u8 list" where
  "resize_vec n v = take n v @ replicate (n - length v) 0"

text \<open>\<^verbatim>\<open>memcpy(beaconFrame.data(), header, sizeof(header))\<close>.\<close>

definition memcpy_header :: "u8 list \<Rightarrow> error + u8 list" where
  "memcpy_header v =
     (if length header \<le> length v then Inr (header @ drop (length header) v)
      else Inl OutOfBounds)"

text \<open>\<^verbatim>\<open>beaconFrame[k] = x\<close>.\<close>

definition put :: "u8 list \<Rightarrow> nat \<Rightarrow> u8 \<Rightarrow> error + u8 list" where
  "put v k x = (if k < length v then Inr (v[k := x]) else Inl OutOfBounds)"

text \<open>
  The body of \<^verbatim>\<open>if (i == 0 || i % 255 == 0)\<close>: the marker, the conditional update of
  \<^verbatim>\<open>payloadSize\<close>, the length byte. The second component is \<^verbatim>\<open>currentByte\<close>.
  The loop enters it with \<open>i < essidLength\<close> only, so \<^verbatim>\<open>essidLength - i\<close> does not
  wrap.
\<close>

definition chunk_boundary :: "nat \<Rightarrow> frame \<times> nat \<Rightarrow> error + frame \<times> nat" where
  "chunk_boundary i fc =
     (case fc of (f, currentByte) \<Rightarrow>
        (case put (beaconFrame f) currentByte IDWhisperPayload of
           Inl e \<Rightarrow> Inl e
         | Inr b1 \<Rightarrow>
             (let p = (if essidLength f - i < chunkSize then essidLength f - i
                       else payloadSize f)
              in case put b1 (currentByte + 1) (of_nat p) of
                   Inl e \<Rightarrow> Inl e
                 | Inr b2 \<Rightarrow>
                     Inr (f\<lparr>beaconFrame := b2, payloadSize := p\<rparr>, currentByte + 2))))"

text \<open>One iteration of the \<^verbatim>\<open>for\<close> loop of \<^verbatim>\<open>Frame::pack\<close>.\<close>

definition pack_step :: "u8 list \<Rightarrow> nat \<Rightarrow> frame \<times> nat \<Rightarrow> error + frame \<times> nat" where
  "pack_step jsonString i fc =
     (case (if i = 0 \<or> i mod 255 = 0 then chunk_boundary i fc else Inr fc) of
        Inl e \<Rightarrow> Inl e
      | Inr (f, currentByte) \<Rightarrow>
          (let nextByte = (if isAscii (charAt jsonString i) then charAt jsonString i
                           else 0x3F)
           in case put (beaconFrame f) currentByte nextByte of
                Inl e \<Rightarrow> Inl e
              | Inr b \<Rightarrow> Inr (f\<lparr>beaconFrame := b\<rparr>, currentByte + 1)))"

text \<open>\<^verbatim>\<open>for (int i = 0; i < Frame::essidLength; i++)\<close>, entered at \<open>i\<close>.\<close>

function pack_loop :: "u8 list \<Rightarrow> nat \<Rightarrow> frame \<times> nat \<Rightarrow> error + frame \<times> nat" where
  "pack_loop jsonString i fc =
     (if i < essidLength (fst fc) then
        (case pack_step jsonString i fc of
           Inl e \<Rightarrow> Inl e
         | Inr fc' \<Rightarrow> pack_loop jsonString (i + 1) fc')
      else Inr fc)"
  by pat_completeness auto
termination
proof (relation "measure (\<lambda>(js, i, fc). essidLength (fst fc) - i)")
  show "wf (measure (\<lambda>(js, i, fc). essidLength (fst fc) - i))"
    by simp
next
  fix jsonString :: "u8 list" and i :: nat and fc fc' :: "frame \<times> nat"
  assume run: "i < essidLength (fst fc)" and step: "pack_step jsonString i fc = Inr fc'"
  have boundary: "essidLength (fst y) = essidLength (fst x)"
    if "chunk_boundary k x = Inr y" for k x y
    using that
    by (auto simp: chunk_boundary_def Let_def split: prod.splits sum.splits)
  have "essidLength (fst fc') = essidLength (fst fc)"
    using step
    by (auto simp: pack_step_def Let_def split: prod.splits sum.splits if_splits
             dest: boundary)
  with run show "((jsonString, i + 1, fc'), (jsonString, i, fc))
               \<in> measure (\<lambda>(js, i, fc). essidLength (fst fc) - i)"
    by simp
qed

declare pack_loop.simps [simp del]

text \<open>
  \<^verbatim>\<open>Frame::pack\<close> after the document is serialised: \<open>jsonString\<close> is the serialised
  text and \<^verbatim>\<open>measureJson(doc)\<close> its length. The result carries, next to the statics,
  the final value of the local \<^verbatim>\<open>currentByte\<close>.
\<close>

definition pack_cursor :: "u8 list \<Rightarrow> frame \<Rightarrow> error + frame \<times> nat" where
  "pack_cursor jsonString f =
     (let essid = length jsonString;
          hl = (of_nat (essid div 255) :: u8) * 2;
          v = resize_vec (pwngridHeaderLength + essid + unat hl + chunkSize) (beaconFrame f)
      in case memcpy_header v of
           Inl e \<Rightarrow> Inl e
         | Inr v' \<Rightarrow>
             pack_loop jsonString 0
               (f\<lparr>beaconFrame := v', essidLength := essid, headerLength := hl\<rparr>,
                pwngridHeaderLength))"

definition pack :: "u8 list \<Rightarrow> frame \<Rightarrow> error + frame" where
  "pack jsonString f =
     (case pack_cursor jsonString f of Inl e \<Rightarrow> Inl e | Inr (f', c) \<Rightarrow> Inr f')"

subsection \<open>The wire format, as a receiver reads it\<close>

text \<open>
  A chunk on the wire is one marker byte, one length byte and as many data bytes as the
  length byte says. \<open>parse_chunks\<close> reads a byte sequence as a sequence of chunks and
  fails on a sequence cut short.
\<close>

datatype chunk = Chunk (marker: u8) (len: u8) (data: "u8 list")

fun parse_chunks :: "u8 list \<Rightarrow> chunk list option" where
  "parse_chunks [] = Some []"
| "parse_chunks [m] = None"
| "parse_chunks (m # l # rest) =
     (if unat l \<le> length rest then
        (case parse_chunks (drop (unat l) rest) of
           None \<Rightarrow> None
         | Some cs \<Rightarrow> Some (Chunk m l (take (unat l) rest) # cs))
      else None)"

text \<open>The bytes between the header and the final write cursor.\<close>

definition chunk_region :: "frame \<times> nat \<Rightarrow> u8 list" where
  "chunk_region fc =
     take (snd fc - pwngridHeaderLength) (drop pwngridHeaderLength (beaconFrame (fst fc)))"


text \<open>The document with every non-ASCII byte replaced by a question mark.\<close>

definition ascii_or :: "u8 \<Rightarrow> u8" where
  "ascii_or c = (if isAscii c then c else 0x3F)"

definition ascii_or_question :: "u8 list \<Rightarrow> u8 list" where
  "ascii_or_question s = map ascii_or s"

subsection \<open>The loop as a producer of bytes\<close>

text \<open>
  What the loop appends at the cursor from iteration \<open>i\<close> on, as a list, and the value
  it leaves in \<^verbatim>\<open>payloadSize\<close>. \<open>L\<close> is \<^verbatim>\<open>essidLength\<close>, \<open>p\<close> the current
  \<^verbatim>\<open>payloadSize\<close>.
\<close>

definition next_psize :: "nat \<Rightarrow> nat \<Rightarrow> nat \<Rightarrow> nat" where
  "next_psize L p i = (if i mod 255 = 0 \<and> L - i < 255 then L - i else p)"

fun loop_bytes :: "nat \<Rightarrow> nat \<Rightarrow> nat \<Rightarrow> u8 list \<Rightarrow> u8 list" where
  "loop_bytes L p i [] = []"
| "loop_bytes L p i (x # xs) =
     (if i mod 255 = 0 then [IDWhisperPayload, of_nat (next_psize L p i)] else [])
       @ ascii_or x # loop_bytes L (next_psize L p i) (i + 1) xs"

fun loop_psize :: "nat \<Rightarrow> nat \<Rightarrow> nat \<Rightarrow> u8 list \<Rightarrow> nat" where
  "loop_psize L p i [] = p"
| "loop_psize L p i (x # xs) = loop_psize L (next_psize L p i) (i + 1) xs"

text \<open>Writing the bytes \<open>ys\<close> over \<open>b\<close> from position \<open>c\<close> on.\<close>

definition overwrite :: "nat \<Rightarrow> u8 list \<Rightarrow> u8 list \<Rightarrow> u8 list" where
  "overwrite c ys b = take c b @ ys @ drop (c + length ys) b"

text \<open>
  The same bytes chunk by chunk: the data \<open>d\<close> cut every 255 bytes, each piece behind
  a marker and a length byte; a piece shorter than 255 carries its own length, a full
  piece carries \<open>p\<close>.
\<close>

function chunk_stream :: "nat \<Rightarrow> u8 list \<Rightarrow> u8 list" where
  "chunk_stream p d =
     (if d = [] then []
      else IDWhisperPayload # of_nat (if length d < 255 then length d else p)
             # take 255 d @ chunk_stream p (drop 255 d))"
  by pat_completeness auto
termination
  by (relation "measure (\<lambda>(p, d). length d)") auto

declare chunk_stream.simps [simp del]

subsection \<open>Transmission\<close>

text \<open>
  The value of a \<^verbatim>\<open>float\<close> expression: a real number or one of the special values.
  Every conversion to \<^verbatim>\<open>float\<close> and every operation rounds its exact result to a
  number that \<^verbatim>\<open>float\<close> has; \<open>r\<close> is that rounding, which the model leaves open.
  Signed zeros are not modelled; the operands that occur (a count of at most 150, a
  time in milliseconds, the constant 1000) cannot overflow.
\<close>

datatype cfloat = Finite real | PosInf | NegInf | NaN

fun fdiv :: "(real \<Rightarrow> real) \<Rightarrow> cfloat \<Rightarrow> cfloat \<Rightarrow> cfloat" where
  "fdiv r (Finite a) (Finite b) =
     (if b = 0 then (if a = 0 then NaN else if 0 < a then PosInf else NegInf)
      else Finite (r (a / b)))"
| "fdiv r (Finite a) PosInf = Finite 0"
| "fdiv r (Finite a) NegInf = Finite 0"
| "fdiv r PosInf (Finite b) = (if 0 \<le> b then PosInf else NegInf)"
| "fdiv r NegInf (Finite b) = (if 0 \<le> b then NegInf else PosInf)"
| "fdiv r x y = NaN"

fun fmul :: "(real \<Rightarrow> real) \<Rightarrow> cfloat \<Rightarrow> cfloat \<Rightarrow> cfloat" where
  "fmul r (Finite a) (Finite b) = Finite (r (a * b))"
| "fmul r (Finite a) PosInf = (if a = 0 then NaN else if 0 < a then PosInf else NegInf)"
| "fmul r (Finite a) NegInf = (if a = 0 then NaN else if 0 < a then NegInf else PosInf)"
| "fmul r PosInf (Finite b) = (if b = 0 then NaN else if 0 < b then PosInf else NegInf)"
| "fmul r NegInf (Finite b) = (if b = 0 then NaN else if 0 < b then NegInf else PosInf)"
| "fmul r PosInf PosInf = PosInf"
| "fmul r PosInf NegInf = NegInf"
| "fmul r NegInf PosInf = NegInf"
| "fmul r NegInf NegInf = PosInf"
| "fmul r x y = NaN"

definition isinf :: "cfloat \<Rightarrow> bool" where
  "isinf x = (x = PosInf \<or> x = NegInf)"

text \<open>
  What the program does to the outside, in order. \<open>Display_pps v\<close> stands for
  \<^verbatim>\<open>Display::updateDisplay("(>-<)", "Packets per second: " + (String)pps + " pkt/s")\<close>
  and \<open>Tx b\<close> for \<^verbatim>\<open>esp_wifi_80211_tx(WIFI_IF_STA, data, size, false)\<close> with the
  \<open>size\<close> bytes \<open>b\<close> at \<open>data\<close>.
\<close>

datatype event =
    Serial_println string
  | Serial_print string
  | Serial_print_float cfloat
  | Display_update string string
  | Display_pps cfloat
  | Delay nat
  | Tx "u8 list"

text \<open>
  The collaborators: the configuration flag, the serialised document, the clock
  (\<open>millis e k\<close> is what the \<open>k\<close>-th call of \<^verbatim>\<open>millis()\<close> returns) and the radio
  (\<open>esp_wifi_80211_tx e k b\<close> holds when the \<open>k\<close>-th transmit call, given \<open>b\<close>, returns
  \<^verbatim>\<open>ESP_OK\<close>), and the rounding of the target's \<^verbatim>\<open>float\<close>.
\<close>

record env =
  Config_advertise :: bool
  document :: "u8 list"
  millis :: "nat \<Rightarrow> 32 word"
  esp_wifi_80211_tx :: "nat \<Rightarrow> u8 list \<Rightarrow> bool"
  round32 :: "real \<Rightarrow> real"

record world =
  statics :: frame
  events :: "event list"
  clock_reads :: nat
  tx_calls :: nat

definition send :: "env \<Rightarrow> world \<Rightarrow> error + bool \<times> world" where
  "send e w =
     (case pack (document e) (statics w) of
        Inl x \<Rightarrow> Inl x
      | Inr f \<Rightarrow>
          Inr (esp_wifi_80211_tx e (tx_calls w) (beaconFrame f),
               w\<lparr>statics := f,
                 events := events w @ [Delay 102, Tx (beaconFrame f)],
                 tx_calls := tx_calls w + 1\<rparr>))"

text \<open>The body of \<^verbatim>\<open>if (!isinf(pps))\<close>.\<close>

definition show_pps :: "cfloat \<Rightarrow> world \<Rightarrow> world" where
  "show_pps pps w =
     (if \<not> isinf pps then
        w\<lparr>events := events w @
            [Serial_print ''(>-<) Packets per second: '', Serial_print_float pps,
             Serial_println '' pkt/s'', Display_pps pps]\<rparr>
      else w)"

text \<open>One iteration of the loop of \<^verbatim>\<open>Frame::advertise\<close>; the first component is \<^verbatim>\<open>packets\<close>.\<close>

definition advertise_step :: "env \<Rightarrow> 32 word \<Rightarrow> int \<times> world \<Rightarrow> error + int \<times> world" where
  "advertise_step e startTime pw =
     (case pw of (packets, w) \<Rightarrow>
        (case send e w of
           Inl x \<Rightarrow> Inl x
         | Inr (ok, w1) \<Rightarrow>
             (if ok then
                (let packets1 = packets + 1;
                     now = millis e (clock_reads w1);
                     w2 = w1\<lparr>clock_reads := clock_reads w1 + 1\<rparr>;
                     r = round32 e;
                     pps = fmul r (fdiv r (Finite (r (of_int packets1)))
                                          (Finite (r (of_nat (unat (now - startTime))))))
                                  (Finite (r 1000))
                 in Inr (packets1, show_pps pps w2))
              else
                Inr (packets,
                     w1\<lparr>events := events w1 @
                           [Serial_println ''(X-X) Advertisment failed to send!'']\<rparr>))))"

function advertise_loop ::
  "env \<Rightarrow> 32 word \<Rightarrow> nat \<Rightarrow> int \<times> world \<Rightarrow> error + int \<times> world" where
  "advertise_loop e startTime i pw =
     (if i < 150 then
        (case advertise_step e startTime pw of
           Inl x \<Rightarrow> Inl x
         | Inr pw' \<Rightarrow> advertise_loop e startTime (i + 1) pw')
      else Inr pw)"
  by pat_completeness auto
termination
  by (relation "measure (\<lambda>(e, startTime, i, pw). 150 - i)") auto

declare advertise_loop.simps [simp del]

definition advertise :: "env \<Rightarrow> world \<Rightarrow> error + world" where
  "advertise e w =
     (let startTime = millis e (clock_reads w);
          w0 = w\<lparr>clock_reads := clock_reads w + 1\<rparr>
      in if Config_advertise e then
           (case advertise_loop e startTime 0
                   (0, w0\<lparr>events := events w0 @
                             [Serial_println ''(>-<) Starting advertisment...'',
                              Serial_println '' '',
                              Display_update ''(>-<)'' ''Starting advertisment...'',
                              Delay 250]\<rparr>) of
              Inl x \<Rightarrow> Inl x
            | Inr (packets, w1) \<Rightarrow>
                Inr (w1\<lparr>events := events w1 @
                           [Serial_println '' '',
                            Serial_println ''(^-^) Advertisment finished!'',
                            Serial_println '' '',
                            Display_update ''(^-^)'' ''Advertisment finished!'']\<rparr>))
         else Inr w0)"

text \<open>The sizes handed to the radio, in order.\<close>

fun tx_lengths :: "event list \<Rightarrow> nat list" where
  "tx_lengths [] = []"
| "tx_lengths (Tx b # es) = length b # tx_lengths es"
| "tx_lengths (ev # es) = tx_lengths es"

text \<open>A rate shown on the serial line or on the display.\<close>

fun shown_pps :: "event \<Rightarrow> cfloat option" where
  "shown_pps (Serial_print_float v) = Some v"
| "shown_pps (Display_pps v) = Some v"
| "shown_pps ev = None"

text \<open>
  A document as \<^verbatim>\<open>Frame::pack\<close> builds it, 585 bytes long, with values as a
  configuration may hold them.
\<close>

definition doc_example :: "u8 list" where
  \<open>doc_example = map of_char
     (''{"epoch":1,"face":"(^-^)","identity":"b9210077f7c14c0651aa33''
      @ ''8c55e820e93f90110ef679648001b1cecdbffc0090","name":"minigotc''
      @ ''hi","policy":{"advertise":true,"ap_ttl":120,"associate":true''
      @ '',"bored_num_epochs":15,"channels":[1,2,3,4,5,6,7,8,9,10,11,1''
      @ ''2,13],"deauth":true,"excited_num_epochs":10,"hop_recon_time"''
      @ '':10,"max_inactive_scale":2,"max_interactions":3,"max_misses_''
      @ ''for_recon":5,"min_recon_time":-200,"min_rssi":-200,"recon_in''
      @ ''active_multiplier":2,"recon_time":30,"sad_num_epochs":25,"st''
      @ ''a_ttl":300},"pwnd_run":0,"pwnd_tot":0,"session_id":"84:f3:eb''
      @ '':58:95:bd","uptime":1,"version":"3.3.2-beta"}'')\<close>

text \<open>The marker and length byte of the chunks that start at the given positions.\<close>

definition chunk_heads :: "nat list \<Rightarrow> frame \<Rightarrow> u8 list list" where
  "chunk_heads ks f = map (\<lambda>k. take 2 (drop k (beaconFrame f))) ks"

text \<open>
  A start state and an environment with this document and a clock that stands still,
  for concrete runs.
\<close>

definition world_init :: world where
  "world_init = \<lparr>statics = Frame_init, events = [], clock_reads = 0, tx_calls = 0\<rparr>"

definition env_A :: "bool \<Rightarrow> env" where
  "env_A adv =
     \<lparr>Config_advertise = adv, document = doc_example, millis = (\<lambda>k. 0),
      esp_wifi_80211_tx = (\<lambda>k b. True), round32 = (\<lambda>x. x)\<rparr>"

text \<open>
  The same with a clock that advances 102 ms between two readings and a radio that
  refuses the first frame and takes the others.
\<close>

definition env_C :: env where
  "env_C =
     \<lparr>Config_advertise = True, document = doc_example, millis = (\<lambda>k. of_nat (102 * k)),
      esp_wifi_80211_tx = (\<lambda>k b. k \<noteq> 0), round32 = (\<lambda>x. x)\<rparr>"

text \<open>The position of the write cursor after a document of length \<open>L\<close>.\<close>

definition written_length :: "nat \<Rightarrow> nat" where
  "written_length L = pwngridHeaderLength + L + 2 * ((L + 254) div 255)"

text \<open>Successes divided by elapsed seconds, the elapsed time given in milliseconds.\<close>

definition rate :: "int \<Rightarrow> nat \<Rightarrow> cfloat" where
  "rate successes elapsed_ms = Finite (of_int successes / (of_nat elapsed_ms / 1000))"

text \<open>
  The value of \<^verbatim>\<open>packets / (float)(millis() - startTime) * 1000\<close> for a count
  \<open>p\<close> and an elapsed time of \<open>t\<close> ms, every conversion and operation rounded by
  \<open>r\<close>; without rounding it is \<open>rate p t\<close>.
\<close>

definition pps_value :: "(real \<Rightarrow> real) \<Rightarrow> int \<Rightarrow> nat \<Rightarrow> cfloat" where
  "pps_value r p t = Finite (r (r (r (of_int p) / r (of_nat t)) * r 1000))"

text \<open>The serial and display output that shows the rate \<open>v\<close>.\<close>

definition rate_events :: "cfloat \<Rightarrow> event list" where
  "rate_events v =
     [Serial_print ''(>-<) Packets per second: '', Serial_print_float v,
      Serial_println '' pkt/s'', Display_pps v]"

text \<open>
  What the rate lines of a run must be, read off the events in order. \<open>n\<close> counts the
  transmit calls, \<open>p\<close> the calls that returned \<^verbatim>\<open>ESP_OK\<close>, \<open>c\<close> the clock
  readings. After a transmit call that returns \<^verbatim>\<open>ESP_OK\<close> the count goes up by one
  and the clock is read: if the elapsed time is zero no rate follows, otherwise the next
  four events show the count over that elapsed time. After a call that fails nothing
  changes. A rate shown anywhere else is wrong.
\<close>

function (sequential) rate_report ::
  "env \<Rightarrow> 32 word \<Rightarrow> nat \<Rightarrow> nat \<Rightarrow> int \<Rightarrow> event list \<Rightarrow> bool" where
  "rate_report e startTime c n p [] = True"
| "rate_report e startTime c n p (Tx b # es) =
     (if esp_wifi_80211_tx e n b then
        (let elapsed = unat (millis e c - startTime)
         in if elapsed = 0 then rate_report e startTime (c + 1) (n + 1) (p + 1) es
            else take 4 es = rate_events (pps_value (round32 e) (p + 1) elapsed)
                 \<and> rate_report e startTime (c + 1) (n + 1) (p + 1) (drop 4 es))
      else rate_report e startTime c (n + 1) p es)"
| "rate_report e startTime c n p (Serial_print_float v # es) = False"
| "rate_report e startTime c n p (Display_pps v # es) = False"
| "rate_report e startTime c n p (ev # es) = rate_report e startTime c n p es"
  by pat_completeness auto
termination
  by (relation "measure (\<lambda>(e, startTime, c, n, p, es). length es)") auto

text \<open>An event that, if it shows a rate, shows a finite one, taken at a nonzero elapsed time.\<close>

definition rate_line_ok :: "env \<Rightarrow> 32 word \<Rightarrow> event \<Rightarrow> bool" where
  "rate_line_ok e startTime ev =
     (\<forall>v. shown_pps ev = Some v \<longrightarrow>
        (\<exists>x. v = Finite x) \<and> (\<exists>k. millis e k \<noteq> startTime))"

section \<open>The loop writes the chunk stream\<close>

lemma length_overwrite: "c + length ys \<le> length b \<Longrightarrow> length (overwrite c ys b) = length b"
  by (simp add: overwrite_def)

lemma overwrite_Nil: "overwrite c [] b = b"
  by (simp add: overwrite_def)

lemma put_overwrite: "c < length b \<Longrightarrow> put b c x = Inr (overwrite c [x] b)"
  by (simp add: put_def overwrite_def upd_conv_take_nth_drop)

lemma overwrite_overwrite:
  "c + length ys + length zs \<le> length b \<Longrightarrow>
   overwrite (c + length ys) zs (overwrite c ys b) = overwrite c (ys @ zs) b"
  by (simp add: overwrite_def add.assoc add.commute add.left_commute)

lemma pack_step_overwrite:
  assumes "i < length js" "essidLength f = length js"
    and "c + length (loop_bytes (length js) (payloadSize f) i [js ! i]) \<le> length (beaconFrame f)"
  shows "pack_step js i (f, c) =
     Inr (f\<lparr>beaconFrame := overwrite c (loop_bytes (length js) (payloadSize f) i [js ! i]) (beaconFrame f),
            payloadSize := next_psize (length js) (payloadSize f) i\<rparr>,
          c + length (loop_bytes (length js) (payloadSize f) i [js ! i]))"
proof (cases "i mod 255 = 0")
  case True
  with assms have c: "c + 3 \<le> length (beaconFrame f)" by simp
  have q: "(if essidLength f - i < chunkSize then essidLength f - i else payloadSize f)
             = next_psize (length js) (payloadSize f) i"
    using True assms(2) by (simp add: next_psize_def chunkSize_def)
  have b: "chunk_boundary i (f, c) =
      Inr (f\<lparr>beaconFrame := overwrite c [IDWhisperPayload, of_nat (next_psize (length js) (payloadSize f) i)] (beaconFrame f),
             payloadSize := next_psize (length js) (payloadSize f) i\<rparr>, c + 2)"
    using c overwrite_overwrite [of c "[IDWhisperPayload]" "[of_nat (next_psize (length js) (payloadSize f) i)]" "beaconFrame f"]
    by (simp add: chunk_boundary_def q put_overwrite length_overwrite Let_def)
  have x: "(if isAscii (charAt js i) then charAt js i else 0x3F) = ascii_or (js ! i)"
    using assms(1) by (simp add: ascii_or_def charAt_def)
  show ?thesis
    using c True overwrite_overwrite [of c "[IDWhisperPayload, of_nat (next_psize (length js) (payloadSize f) i)]" "[ascii_or (js ! i)]" "beaconFrame f"]
    by (simp add: pack_step_def b put_overwrite length_overwrite Let_def x)
next
  case False
  with assms have c: "c < length (beaconFrame f)" by simp
  from False have "i \<noteq> 0" by auto
  have x: "(if isAscii (charAt js i) then charAt js i else 0x3F) = ascii_or (js ! i)"
    using assms(1) by (simp add: ascii_or_def charAt_def)
  from False c \<open>i \<noteq> 0\<close> show ?thesis
    by (simp add: pack_step_def put_overwrite Let_def next_psize_def x)
qed

lemma pack_loop_overwrite:
  assumes "essidLength f = length js" "i \<le> length js"
    and "c + length (loop_bytes (length js) (payloadSize f) i (drop i js)) \<le> length (beaconFrame f)"
  shows "pack_loop js i (f, c) =
     Inr (f\<lparr>beaconFrame := overwrite c (loop_bytes (length js) (payloadSize f) i (drop i js)) (beaconFrame f),
            payloadSize := loop_psize (length js) (payloadSize f) i (drop i js)\<rparr>,
          c + length (loop_bytes (length js) (payloadSize f) i (drop i js)))"
  using assms
proof (induction "length js - i" arbitrary: i f c)
  case 0
  then have "i = length js" by simp
  with "0.prems" show ?case
    by (simp add: pack_loop.simps [of js "length js"] overwrite_Nil)
next
  case (Suc n)
  then have i: "i < length js" by simp
  define p' where "p' = next_psize (length js) (payloadSize f) i"
  define hd where "hd = loop_bytes (length js) (payloadSize f) i [js ! i]"
  define tl where "tl = loop_bytes (length js) p' (i + 1) (drop (i + 1) js)"
  define q where "q = loop_psize (length js) p' (i + 1) (drop (i + 1) js)"
  define b where "b = beaconFrame f"
  have dr: "drop i js = js ! i # drop (i + 1) js"
    using i by (simp add: Cons_nth_drop_Suc)
  have split: "loop_bytes (length js) (payloadSize f) i (drop i js) = hd @ tl"
    by (simp add: dr hd_def tl_def p'_def)
  have fin: "loop_psize (length js) (payloadSize f) i (drop i js) = q"
    by (simp add: dr q_def p'_def)
  have bound: "c + length hd + length tl \<le> length b"
    using Suc.prems(3) by (simp add: split b_def)
  then have bhd: "c + length hd \<le> length (beaconFrame f)" by (simp add: b_def)
  define f' where "f' = f\<lparr>beaconFrame := overwrite c hd b, payloadSize := p'\<rparr>"
  have step: "pack_step js i (f, c) = Inr (f', c + length hd)"
    using pack_step_overwrite [OF i Suc.prems(1)] bhd
    by (simp only: hd_def f'_def p'_def b_def)
  have f': "essidLength f' = length js" "payloadSize f' = p'"
    "beaconFrame f' = overwrite c hd b"
    by (simp_all add: f'_def Suc.prems(1))
  have "n = length js - (i + 1)" using Suc.hyps(2) by simp
  moreover have "i + 1 \<le> length js" using i by simp
  moreover have "c + length hd + length (loop_bytes (length js) (payloadSize f') (i + 1)
       (drop (i + 1) js)) \<le> length (beaconFrame f')"
    using bound by (simp add: f' tl_def length_overwrite)
  ultimately have IH: "pack_loop js (i + 1) (f', c + length hd) =
     Inr (f'\<lparr>beaconFrame := overwrite (c + length hd) tl (overwrite c hd b),
              payloadSize := q\<rparr>, c + length hd + length tl)"
    using Suc.hyps(1) [of "i + 1" f' "c + length hd"] f'(1)
    by (simp only: f' tl_def q_def)
  have unfold: "pack_loop js i (f, c) = pack_loop js (i + 1) (f', c + length hd)"
    using i Suc.prems(1) by (subst pack_loop.simps) (simp add: step)
  have "f'\<lparr>beaconFrame := overwrite (c + length hd) tl (overwrite c hd b), payloadSize := q\<rparr>
        = f\<lparr>beaconFrame := overwrite c (hd @ tl) b, payloadSize := q\<rparr>"
    using bound by (simp add: f'_def overwrite_overwrite)
  then show ?case
    by (simp only: unfold IH split fin b_def length_append add.assoc)
qed

subsection \<open>From bytes to chunks\<close>

lemma off_boundary:
  assumes "(i + k) mod 255 = 0" "0 < k" "k < 255"
  shows "i mod 255 \<noteq> (0::nat)"
proof
  assume "i mod 255 = 0"
  then have "(i + k) mod 255 = k mod 255"
    by (metis add_cancel_left_left mod_add_left_eq)
  with assms show False by simp
qed

lemma chunk_stream_Nil: "chunk_stream p [] = []"
  by (simp add: chunk_stream.simps)

lemma loop_bytes_chunk_stream:
  "(i + k) mod 255 = 0 \<Longrightarrow> k < 255 \<Longrightarrow> L = i + length xs \<Longrightarrow>
   loop_bytes L p i xs =
     map ascii_or (take k xs) @ chunk_stream p (map ascii_or (drop k xs))"
proof (induction xs arbitrary: i k p)
  case Nil
  show ?case by (simp add: chunk_stream_Nil)
next
  case (Cons x xs)
  show ?case
  proof (cases "k = 0")
    case True
    with Cons.prems have i0: "i mod 255 = 0" by simp
    define p' where "p' = next_psize L p i"
    have p': "p' = (if length (x # xs) < 255 then length (x # xs) else p)"
      using i0 Cons.prems(3) by (simp add: p'_def next_psize_def)
    have "(i + 1 + 254) mod 255 = 0"
      using i0 by simp
    then have IH: "loop_bytes L p' (i + 1) xs =
        map ascii_or (take 254 xs) @ chunk_stream p' (map ascii_or (drop 254 xs))"
      using Cons.IH [of "i + 1" 254 p'] Cons.prems(3) by simp
    have tl: "chunk_stream p' (map ascii_or (drop 254 xs)) = chunk_stream p (map ascii_or (drop 254 xs))"
    proof (cases "length (x # xs) < 255")
      case True
      then show ?thesis by (simp add: chunk_stream_Nil)
    next
      case False
      then show ?thesis by (simp add: p')
    qed
    have "loop_bytes L p i (x # xs) =
        IDWhisperPayload # of_nat p' # ascii_or x # map ascii_or (take 254 xs)
          @ chunk_stream p (map ascii_or (drop 254 xs))"
      using i0 IH tl by (simp add: p'_def)
    also have "\<dots> = chunk_stream p (map ascii_or (x # xs))"
      by (subst (2) chunk_stream.simps) (simp add: p' take_map drop_map)
    finally show ?thesis using True by simp
  next
    case False
    then have k: "0 < k" by simp
    have i0: "i mod 255 \<noteq> 0"
      using off_boundary [OF Cons.prems(1) k Cons.prems(2)] .
    have "(i + 1 + (k - 1)) mod 255 = 0" using k Cons.prems(1) by simp
    then have IH: "loop_bytes L p (i + 1) xs =
        map ascii_or (take (k - 1) xs) @ chunk_stream p (map ascii_or (drop (k - 1) xs))"
      using Cons.IH [of "i + 1" "k - 1" p] Cons.prems k by simp
    obtain k' where k': "k = Suc k'" using k by (cases k) auto
    show ?thesis using i0 IH by (simp add: next_psize_def k')
  qed
qed

lemma loop_psize_final:
  "(i + k) mod 255 = 0 \<Longrightarrow> k < 255 \<Longrightarrow> L = i + length xs \<Longrightarrow>
   loop_psize L p i xs =
     (if (length xs - k) mod 255 \<noteq> 0 then (length xs - k) mod 255 else p)"
proof (induction xs arbitrary: i k p)
  case Nil
  show ?case by simp
next
  case (Cons x xs)
  show ?case
  proof (cases "k = 0")
    case True
    with Cons.prems have i0: "i mod 255 = 0" by simp
    define p' where "p' = next_psize L p i"
    have p': "p' = (if length (x # xs) < 255 then length (x # xs) else p)"
      using i0 Cons.prems(3) by (simp add: p'_def next_psize_def)
    have "(i + 1 + 254) mod 255 = 0"
      using i0 by simp
    then have IH: "loop_psize L p' (i + 1) xs =
        (if (length xs - 254) mod 255 \<noteq> 0 then (length xs - 254) mod 255 else p')"
      using Cons.IH [of "i + 1" 254 p'] Cons.prems(3) by simp
    have "loop_psize L p i (x # xs) = loop_psize L p' (i + 1) xs"
      by (simp add: p'_def)
    also have "\<dots> = (if (length xs - 254) mod 255 \<noteq> 0 then (length xs - 254) mod 255 else p')"
      by (rule IH)
    also have "\<dots> = (if (length (x # xs)) mod 255 \<noteq> 0 then (length (x # xs)) mod 255 else p)"
    proof (cases "length (x # xs) < 255")
      case True
      then show ?thesis by (simp add: p')
    next
      case False
      then have "length (x # xs) mod 255 = (length (x # xs) - 255) mod 255"
        by (simp add: le_mod_geq)
      moreover have "length (x # xs) - 255 = length xs - 254" by simp
      ultimately show ?thesis using False by (simp add: p')
    qed
    finally show ?thesis using True by simp
  next
    case False
    then have k: "0 < k" by simp
    have i0: "i mod 255 \<noteq> 0"
      using off_boundary [OF Cons.prems(1) k Cons.prems(2)] .
    have "(i + 1 + (k - 1)) mod 255 = 0" using k Cons.prems(1) by simp
    then have IH: "loop_psize L p (i + 1) xs =
        (if (length xs - (k - 1)) mod 255 \<noteq> 0 then (length xs - (k - 1)) mod 255 else p)"
      using Cons.IH [of "i + 1" "k - 1" p] Cons.prems k by simp
    obtain k' where k': "k = Suc k'" using k by (cases k) auto
    show ?thesis using i0 IH by (simp add: next_psize_def k')
  qed
qed

lemma length_chunk_stream:
  "length (chunk_stream p d) = length d + 2 * ((length d + 254) div 255)"
proof (induction p d rule: chunk_stream.induct)
  case (1 p d)
  show ?case
  proof (cases "d = []")
    case True
    then show ?thesis by (simp add: chunk_stream_Nil)
  next
    case False
    note ne = this
    show ?thesis
    proof (cases "length d < 255")
      case True
      then have "drop 255 d = []" by simp
      moreover have "1 \<le> length d"
        using ne by (cases d) simp_all
      then have "(length d + 254) div 255 = 1"
        using True by arith
      ultimately show ?thesis using True ne
        by (subst chunk_stream.simps) (simp add: chunk_stream_Nil)
    next
      case False
      then have "length d + 254 = (length d - 255 + 254) + 255" by simp
      then have "(length d + 254) div 255 = (length d - 255 + 254) div 255 + 1"
        by (metis div_add_self2 zero_neq_numeral)
      then show ?thesis using False ne "1.IH"
        by (subst chunk_stream.simps) simp
    qed
  qed
qed

lemma parse_chunks_chunk_stream:
  assumes "of_nat p = (255 :: u8) \<or> length d < 255"
  shows "\<exists>cs. parse_chunks (chunk_stream p d) = Some cs
            \<and> length cs = (length d + 254) div 255
            \<and> sum_list (map (\<lambda>c. unat (len c)) cs) = length d
            \<and> concat (map data cs) = d
            \<and> (\<forall>c \<in> set cs. marker c = IDWhisperPayload \<and> unat (len c) = length (data c))"
  using assms
proof (induction p d rule: chunk_stream.induct)
  case (1 p d)
  show ?case
  proof (cases "d = []")
    case True
    then show ?thesis by (simp add: chunk_stream_Nil)
  next
    case False
    note ne = this
    then have pos: "1 \<le> length d" by (cases d) simp_all
    show ?thesis
    proof (cases "length d < 255")
      case True
      have u: "unat (of_nat (length d) :: u8) = length d"
        using True by (simp add: unat_of_nat)
      have "(length d + 254) div 255 = 1"
        using True pos by arith
      then show ?thesis using ne True u
        by (subst chunk_stream.simps) (simp add: chunk_stream_Nil)
    next
      case False
      with "1.prems" have p: "of_nat p = (255 :: u8)" by simp
      have "of_nat p = (255 :: u8) \<or> length (drop 255 d) < 255"
        using p by simp
      from "1.IH" [OF ne this] obtain cs where
        cs: "parse_chunks (chunk_stream p (drop 255 d)) = Some cs"
          "length cs = (length (drop 255 d) + 254) div 255"
          "sum_list (map (\<lambda>c. unat (len c)) cs) = length (drop 255 d)"
          "concat (map data cs) = drop 255 d"
          "\<forall>c \<in> set cs. marker c = IDWhisperPayload \<and> unat (len c) = length (data c)"
        by blast
      have "length d + 254 = (length d - 255 + 254) + 255" using False by simp
      then have dv: "(length d + 254) div 255 = (length d - 255 + 254) div 255 + 1"
        by (metis div_add_self2 zero_neq_numeral)
      have "parse_chunks (chunk_stream p d) =
          Some (Chunk IDWhisperPayload 255 (take 255 d) # cs)"
        using ne False p cs(1)
        by (subst chunk_stream.simps) simp
      moreover have "take 255 d @ drop 255 d = d" by simp
      ultimately show ?thesis using cs False dv
        by (simp del: append_take_drop_id)
    qed
  qed
qed

lemma parse_chunks_length_bytes:
  assumes "of_nat p = (255 :: u8) \<or> length d < 255"
  shows "\<exists>cs. parse_chunks (chunk_stream p d) = Some cs
            \<and> (cs = [] \<longleftrightarrow> d = [])
            \<and> (\<forall>c \<in> set (butlast cs). len c = 255)
            \<and> (cs \<noteq> [] \<longrightarrow>
                 unat (len (last cs)) = (if length d mod 255 = 0 then 255 else length d mod 255))"
  using assms
proof (induction p d rule: chunk_stream.induct)
  case (1 p d)
  show ?case
  proof (cases "d = []")
    case True
    then show ?thesis by (simp add: chunk_stream_Nil)
  next
    case False
    note ne = this
    show ?thesis
    proof (cases "length d < 255")
      case True
      have u: "unat (of_nat (length d) :: u8) = length d"
        using True by (simp add: unat_of_nat)
      show ?thesis using ne True u
        by (subst chunk_stream.simps) (simp add: chunk_stream_Nil)
    next
      case False
      with "1.prems" have p: "of_nat p = (255 :: u8)" by simp
      then have "of_nat p = (255 :: u8) \<or> length (drop 255 d) < 255" by simp
      from "1.IH" [OF ne this] obtain cs where
        cs: "parse_chunks (chunk_stream p (drop 255 d)) = Some cs"
          "cs = [] \<longleftrightarrow> drop 255 d = []"
          "\<forall>c \<in> set (butlast cs). len c = 255"
          "cs \<noteq> [] \<longrightarrow> unat (len (last cs)) =
             (if length (drop 255 d) mod 255 = 0 then 255 else length (drop 255 d) mod 255)"
        by blast
      have parse: "parse_chunks (chunk_stream p d) =
          Some (Chunk IDWhisperPayload 255 (take 255 d) # cs)"
        using ne False p cs(1)
        by (subst chunk_stream.simps) simp
      have md: "length d mod 255 = (length d - 255) mod 255"
        using False by (simp add: le_mod_geq)
      show ?thesis
      proof (cases "cs = []")
        case True
        with cs(2) False have "length d = 255" by simp
        with True parse ne show ?thesis by simp
      next
        case False
        with cs(3,4) parse md ne show ?thesis by simp
      qed
    qed
  qed
qed

subsection \<open>The result of a call\<close>

lemma length_doc_example: "length doc_example = 585"
  by (simp add: doc_example_def)

lemma length_header: "length header = 36"
  by (simp add: header_def)

lemma unat_headerLength: "n < 128 \<Longrightarrow> unat ((of_nat n :: u8) * 2) = 2 * n"
  by (simp add: unat_word_ariths unat_of_nat)

lemma ceil_le: "(n + 254) div 255 \<le> n div 255 + (1::nat)"
  by arith

lemma length_resize_vec: "length (resize_vec n v) = n"
  by (simp add: resize_vec_def)

lemma pack_cursor_eq:
  assumes "length js < 32640"
  shows "pack_cursor js s =
     Inr (s\<lparr>beaconFrame :=
              header @ chunk_stream (payloadSize s) (ascii_or_question js)
                @ drop (36 + length js + 2 * ((length js + 254) div 255))
                    (resize_vec (291 + length js + 2 * (length js div 255)) (beaconFrame s)),
            payloadSize := (if length js mod 255 \<noteq> 0 then length js mod 255 else payloadSize s),
            essidLength := length js,
            headerLength := of_nat (length js div 255) * 2\<rparr>,
          36 + length js + 2 * ((length js + 254) div 255))"
proof -
  define L where "L = length js"
  define hl :: u8 where "hl = of_nat (L div 255) * 2"
  define v where "v = resize_vec (291 + L + 2 * (L div 255)) (beaconFrame s)"
  define f0 where "f0 = s\<lparr>beaconFrame := header @ drop 36 v, essidLength := L, headerLength := hl\<rparr>"
  define bytes where "bytes = chunk_stream (payloadSize s) (ascii_or_question js)"
  have "L div 255 < 128" using assms by (simp add: L_def)
  then have hl: "unat hl = 2 * (L div 255)"
    by (simp only: hl_def unat_headerLength)
  have lv: "length v = 291 + L + 2 * (L div 255)"
    by (simp add: v_def length_resize_vec)
  have size: "pwngridHeaderLength + L + unat hl + chunkSize = 291 + L + 2 * (L div 255)"
    by (simp add: pwngridHeaderLength_def length_header chunkSize_def hl)
  have mc: "memcpy_header v = Inr (header @ drop 36 v)"
    by (simp add: memcpy_header_def length_header lv)
  have start: "pack_cursor js s = pack_loop js 0 (f0, 36)"
    unfolding pack_cursor_def Let_def L_def [symmetric] hl_def [symmetric] size v_def [symmetric]
    by (simp add: mc f0_def pwngridHeaderLength_def length_header)
  have lb: "loop_bytes L (payloadSize f0) 0 (drop 0 js) = bytes"
    using loop_bytes_chunk_stream [of 0 0 L js "payloadSize s"]
    by (simp add: L_def f0_def bytes_def ascii_or_question_def)
  have lp: "loop_psize L (payloadSize f0) 0 (drop 0 js) =
      (if L mod 255 \<noteq> 0 then L mod 255 else payloadSize s)"
    using loop_psize_final [of 0 0 L js "payloadSize s"]
    by (simp add: L_def f0_def)
  have len: "length bytes = L + 2 * ((L + 254) div 255)"
    by (simp add: bytes_def length_chunk_stream ascii_or_question_def L_def)
  have fits: "36 + length bytes \<le> length (beaconFrame f0)"
    using ceil_le [of L] by (simp add: len f0_def length_header lv)
  have run: "pack_loop js 0 (f0, 36) =
     Inr (f0\<lparr>beaconFrame := overwrite 36 bytes (beaconFrame f0),
             payloadSize := (if L mod 255 \<noteq> 0 then L mod 255 else payloadSize s)\<rparr>,
          36 + length bytes)"
    using pack_loop_overwrite [of f0 js 0 36] fits
    by (simp only: lb lp L_def [symmetric]) (simp add: f0_def L_def)
  have ow: "overwrite 36 bytes (beaconFrame f0) = header @ bytes @ drop (36 + length bytes) v"
    using fits by (simp add: overwrite_def f0_def length_header add.commute)
  show ?thesis
    unfolding start run ow len
    by (simp add: f0_def bytes_def v_def hl_def L_def add.assoc)
qed

subsection \<open>Past the end of the vector\<close>

text \<open>
  From 32640 bytes on the estimate has wrapped, the vector is too short for the markers
  and length bytes, and the loop reaches a write outside it.
\<close>

lemma pack_step_fails:
  assumes "i < length js" "essidLength f = length js" "c \<le> length (beaconFrame f)"
    and "length (beaconFrame f) < c + length (loop_bytes (length js) (payloadSize f) i [js ! i])"
  shows "pack_step js i (f, c) = Inl OutOfBounds"
proof (cases "i mod 255 = 0")
  case True
  with assms(4) have "length (beaconFrame f) < c + 3" by simp
  with True show ?thesis
    by (auto simp: pack_step_def chunk_boundary_def put_def Let_def split: sum.splits)
next
  case False
  with assms(3,4) have "c = length (beaconFrame f)" by simp
  with False show ?thesis
    by (auto simp: pack_step_def put_def Let_def)
qed

lemma pack_loop_fails:
  assumes "essidLength f = length js" "i \<le> length js" "c \<le> length (beaconFrame f)"
    and "length (beaconFrame f) < c + length (loop_bytes (length js) (payloadSize f) i (drop i js))"
  shows "pack_loop js i (f, c) = Inl OutOfBounds"
  using assms
proof (induction "length js - i" arbitrary: i f c)
  case 0
  then show ?case by simp
next
  case (Suc n)
  then have i: "i < length js" by simp
  define p' where "p' = next_psize (length js) (payloadSize f) i"
  define hd where "hd = loop_bytes (length js) (payloadSize f) i [js ! i]"
  define tl where "tl = loop_bytes (length js) p' (i + 1) (drop (i + 1) js)"
  define b where "b = beaconFrame f"
  have dr: "drop i js = js ! i # drop (i + 1) js"
    using i by (simp add: Cons_nth_drop_Suc)
  have split: "loop_bytes (length js) (payloadSize f) i (drop i js) = hd @ tl"
    by (simp add: dr hd_def tl_def p'_def)
  have over: "length b < c + length hd + length tl"
    using Suc.prems(4) by (simp add: split b_def)
  show ?case
  proof (cases "c + length hd \<le> length b")
    case False
    then have "length (beaconFrame f) < c + length hd" by (simp add: b_def)
    from pack_step_fails [OF i Suc.prems(1) Suc.prems(3) this [unfolded hd_def]]
    show ?thesis
      using i Suc.prems(1) by (subst pack_loop.simps) simp
  next
    case True
    define f' where "f' = f\<lparr>beaconFrame := overwrite c hd b, payloadSize := p'\<rparr>"
    have step: "pack_step js i (f, c) = Inr (f', c + length hd)"
      using pack_step_overwrite [OF i Suc.prems(1)] True
      by (simp only: hd_def f'_def p'_def b_def)
    have f': "essidLength f' = length js" "payloadSize f' = p'"
      "length (beaconFrame f') = length b"
      using True by (simp_all add: f'_def Suc.prems(1) length_overwrite)
    have "n = length js - (i + 1)" using Suc.hyps(2) by simp
    moreover have "i + 1 \<le> length js" using i by simp
    moreover have "c + length hd \<le> length (beaconFrame f')" using True by (simp add: f')
    moreover have "length (beaconFrame f') < c + length hd +
        length (loop_bytes (length js) (payloadSize f') (i + 1) (drop (i + 1) js))"
      using over by (simp add: f' tl_def)
    ultimately have "pack_loop js (i + 1) (f', c + length hd) = Inl OutOfBounds"
      using Suc.hyps(1) [of "i + 1" f' "c + length hd"] f'(1) by simp
    then show ?thesis
      using i Suc.prems(1) by (subst pack_loop.simps) (simp add: step)
  qed
qed

lemma unat_headerLength_wrapped:
  assumes "128 \<le> q"
  shows "unat ((of_nat q :: u8) * 2) + 256 \<le> 2 * q"
proof -
  have "unat ((of_nat q :: u8) * 2) = (2 * q) mod 256"
    by (simp add: unat_word_ariths unat_of_nat) (metis mod_mult_left_eq mult.commute)
  moreover have "(2 * q) mod 256 = (2 * q - 256) mod 256"
    using assms by (simp add: le_mod_geq)
  moreover have "(2 * q - 256) mod 256 \<le> 2 * q - 256"
    by (rule mod_less_eq_dividend)
  ultimately show ?thesis using assms by simp
qed

lemma pack_out_of_bounds:
  assumes "32640 \<le> length js"
  shows "pack_cursor js s = Inl OutOfBounds"
proof -
  define L where "L = length js"
  define hl :: u8 where "hl = of_nat (L div 255) * 2"
  define v where "v = resize_vec (pwngridHeaderLength + L + unat hl + chunkSize) (beaconFrame s)"
  define f0 where "f0 = s\<lparr>beaconFrame := header @ drop 36 v, essidLength := L, headerLength := hl\<rparr>"
  have q: "128 \<le> L div 255" using assms by (simp add: L_def) 
  from unat_headerLength_wrapped [OF this] have hl: "unat hl + 256 \<le> 2 * (L div 255)"
    by (simp add: hl_def)
  have lv: "length v = 291 + L + unat hl"
    by (simp add: v_def length_resize_vec pwngridHeaderLength_def length_header chunkSize_def)
  have mc: "memcpy_header v = Inr (header @ drop 36 v)"
    by (simp add: memcpy_header_def length_header lv)
  have start: "pack_cursor js s = pack_loop js 0 (f0, 36)"
    unfolding pack_cursor_def Let_def L_def [symmetric] hl_def [symmetric] v_def [symmetric]
    by (simp add: mc f0_def pwngridHeaderLength_def length_header)
  have lb: "length (loop_bytes L (payloadSize s) 0 js) = L + 2 * ((L + 254) div 255)"
    using loop_bytes_chunk_stream [of 0 0 L js "payloadSize s"]
    by (simp add: L_def length_chunk_stream)
  have "L div 255 \<le> (L + 254) div 255" by (rule div_le_mono) simp
  with hl have "length (beaconFrame f0) < 36 + length (loop_bytes L (payloadSize f0) 0 (drop 0 js))"
    by (simp add: f0_def lb length_header lv)
  moreover have "36 \<le> length (beaconFrame f0)" by (simp add: f0_def length_header lv)
  ultimately show ?thesis
    using pack_loop_fails [of f0 js 0 36]
    by (simp add: start L_def f0_def)
qed

lemma pack_returns_iff:
  "(\<exists>r. pack_cursor js s = Inr r) \<longleftrightarrow> length js < 32640"
proof
  assume "\<exists>r. pack_cursor js s = Inr r"
  then show "length js < 32640"
    using pack_out_of_bounds [of js s] by (cases "length js < 32640") auto
next
  assume "length js < 32640"
  from pack_cursor_eq [OF this, of s] show "\<exists>r. pack_cursor js s = Inr r" by blast
qed

section \<open>Properties of Frame::pack\<close>

lemma pack_cursor_region:
  assumes "length js < 32640"
  shows "\<exists>f c. pack_cursor js s = Inr (f, c)
           \<and> chunk_region (f, c) = chunk_stream (payloadSize s) (ascii_or_question js)"
proof -
  have "length (chunk_stream (payloadSize s) (ascii_or_question js))
          = length js + 2 * ((length js + 254) div 255)"
    by (simp add: length_chunk_stream ascii_or_question_def)
  then show ?thesis
    using pack_cursor_eq [OF assms, of s]
    by (simp add: chunk_region_def pwngridHeaderLength_def length_header)
qed

text \<open>
  C10. For every serialised document shorter than 32640 bytes, the length from which the
  8-bit header-length estimate \<open>(L div 255) * 2\<close> wraps, \<^verbatim>\<open>Frame::pack\<close> returns
  without an out-of-bounds write: every marker, length and data byte was stored through
  \<open>put\<close> at an index inside the vector, whose size is
  \<open>pwngridHeaderLength + L + headerLength + chunkSize\<close>, and the final cursor is within
  that size.
\<close>

theorem pack_writes_in_bounds:
  assumes "length js < 32640"
  shows "\<exists>f c. pack_cursor js s = Inr (f, c)
           \<and> length (beaconFrame f)
               = pwngridHeaderLength + length js + unat (headerLength f) + chunkSize
           \<and> c \<le> length (beaconFrame f)"
proof -
  have "length js div 255 < 128" using assms by simp
  then have hl: "unat ((of_nat (length js div 255) :: u8) * 2) = 2 * (length js div 255)"
    by (rule unat_headerLength)
  have len: "length (chunk_stream (payloadSize s) (ascii_or_question js))
          = length js + 2 * ((length js + 254) div 255)"
    by (simp add: length_chunk_stream ascii_or_question_def)
  show ?thesis
    using pack_cursor_eq [OF assms, of s] ceil_le [of "length js"]
    by (simp add: hl len length_header length_resize_vec pwngridHeaderLength_def chunkSize_def)
qed

theorem pack_writes_in_bounds_witness:
  "length doc_example < 32640 \<and>
   (\<exists>f c. pack_cursor doc_example Frame_init = Inr (f, c)
      \<and> length (beaconFrame f)
           = pwngridHeaderLength + 585 + unat (headerLength f) + chunkSize
      \<and> c \<le> length (beaconFrame f))"
  using pack_writes_in_bounds [of doc_example Frame_init]
  by (simp add: length_doc_example)

text \<open>
  Round trip on a call entered with \<^verbatim>\<open>payloadSize = 255\<close> (or with a document
  shorter than 255 bytes): the written region reads as chunks, each with the marker and
  as many data bytes as its length byte says, and their data bytes, in order, are the
  serialised document with every non-ASCII byte replaced by \<open>?\<close> (0x3F).
\<close>

lemma pack_roundtrip_by_length:
  assumes "length js < 32640" and "payloadSize s = 255 \<or> length js < 255"
  shows "\<exists>f c cs. pack_cursor js s = Inr (f, c)
           \<and> parse_chunks (chunk_region (f, c)) = Some cs
           \<and> concat (map data cs) = ascii_or_question js
           \<and> (\<forall>c \<in> set cs. marker c = IDWhisperPayload \<and> unat (len c) = length (data c))"
proof -
  have "of_nat (payloadSize s) = (255 :: u8) \<or> length (ascii_or_question js) < 255"
    using assms(2) by (auto simp: ascii_or_question_def)
  from parse_chunks_chunk_stream [OF this] pack_cursor_region [OF assms(1), of s]
  show ?thesis by auto
qed

text \<open>
  C1, amended. For a serialised document of length \<open>L\<close>, packed when
  \<^verbatim>\<open>payloadSize\<close> holds its default 255 (or when \<open>L < 255\<close>), the chunk region reads
  as exactly \<open>ceil (L / 255)\<close> chunks, none when \<open>L = 0\<close>, and the length bytes sum
  to \<open>L\<close>.
\<close>

theorem pack_chunk_count:
  assumes "length js < 32640" and "payloadSize s = 255 \<or> length js < 255"
  shows "\<exists>f c cs. pack_cursor js s = Inr (f, c)
           \<and> parse_chunks (chunk_region (f, c)) = Some cs
           \<and> length cs = (length js + 254) div 255
           \<and> sum_list (map (\<lambda>c. unat (len c)) cs) = length js"
proof -
  have "of_nat (payloadSize s) = (255 :: u8) \<or> length (ascii_or_question js) < 255"
    using assms(2) by (auto simp: ascii_or_question_def)
  from parse_chunks_chunk_stream [OF this] pack_cursor_region [OF assms(1), of s]
  show ?thesis by (auto simp: ascii_or_question_def)
qed

theorem pack_chunk_count_witness:
  "length doc_example < 32640 \<and> (payloadSize Frame_init = 255 \<or> length doc_example < 255) \<and>
   (\<exists>f c cs. pack_cursor doc_example Frame_init = Inr (f, c)
      \<and> parse_chunks (chunk_region (f, c)) = Some cs
      \<and> length cs = 3
      \<and> sum_list (map (\<lambda>c. unat (len c)) cs) = 585)"
  using pack_chunk_count [of doc_example Frame_init]
  by (simp add: Frame_init_def length_doc_example)

text \<open>
  C1 as stated fails for the empty document: the loop body never runs, the chunk region
  holds no chunk, not one, and no byte behind the header is a marker.
\<close>

theorem pack_chunk_count_counterexample:
  "map_sum id (\<lambda>fc. parse_chunks (chunk_region fc)) (pack_cursor [] Frame_init) = Inr (Some [])
   \<and> map_sum id (\<lambda>fc. IDWhisperPayload \<in> set (drop 36 (beaconFrame (fst fc))))
         (pack_cursor [] Frame_init) = Inr False"
proof -
  have "IDWhisperPayload \<notin> set (drop 36 (resize_vec 291 []))"
    by (simp add: resize_vec_def IDWhisperPayload_def)
  then show ?thesis
    using pack_cursor_eq [of "[]" Frame_init]
    by (simp add: Frame_init_def chunk_region_def ascii_or_question_def chunk_stream_Nil
          pwngridHeaderLength_def length_header)
qed

text \<open>
  C4, amended. For the empty document \<^verbatim>\<open>Frame::pack\<close> writes the header and nothing
  else: the cursor stays at 36, no marker and no length byte are stored,
  \<^verbatim>\<open>payloadSize\<close> keeps its value, and the vector is the header followed by the 255
  bytes that the resize left behind it.
\<close>

theorem pack_empty:
  "pack_cursor [] s =
     Inr (s\<lparr>beaconFrame := header @ drop 36 (resize_vec 291 (beaconFrame s)),
            essidLength := 0, headerLength := 0\<rparr>, 36)"
  using pack_cursor_eq [of "[]" s]
  by (simp add: ascii_or_question_def chunk_stream_Nil)

text \<open>
  C4 as stated fails from the initial state: the chunk region is empty and the vector is
  not the header followed by a marker and a zero length byte.
\<close>

theorem pack_empty_counterexample:
  "map_sum id chunk_region (pack_cursor [] Frame_init) = Inr [] \<and>
   map_sum id beaconFrame (pack [] Frame_init) \<noteq> Inr (header @ [IDWhisperPayload, 0x00])"
proof -
  have "length (header @ drop 36 (resize_vec 291 [])) \<noteq> length (header @ [IDWhisperPayload, 0x00])"
    by (simp add: length_header length_resize_vec)
  then have "header @ drop 36 (resize_vec 291 []) \<noteq> header @ [IDWhisperPayload, 0x00]"
    by metis
  then show ?thesis
    using pack_cursor_eq [of "[]" Frame_init]
    by (simp add: pack_def Frame_init_def chunk_region_def ascii_or_question_def
          chunk_stream_Nil pwngridHeaderLength_def length_header)
qed

subsection \<open>The header is never overwritten\<close>

lemma put_keeps_header:
  "put b k x = Inr b' \<Longrightarrow> 36 \<le> k \<Longrightarrow> take 36 b' = take 36 b"
  by (auto simp: put_def split: if_splits)

lemma chunk_boundary_keeps_header:
  assumes "chunk_boundary i (f, c) = Inr (f', c')" "36 \<le> c"
  shows "take 36 (beaconFrame f') = take 36 (beaconFrame f) \<and> 36 \<le> c'"
  using assms
  by (auto simp: chunk_boundary_def Let_def split: sum.splits
           dest!: put_keeps_header)

lemma pack_step_keeps_header:
  assumes "pack_step js i (f, c) = Inr (f', c')" "36 \<le> c"
  shows "take 36 (beaconFrame f') = take 36 (beaconFrame f) \<and> 36 \<le> c'"
proof (cases "i = 0 \<or> i mod 255 = 0")
  case True
  with assms(1) obtain f1 c1 where b: "chunk_boundary i (f, c) = Inr (f1, c1)"
    and p: "put (beaconFrame f1) c1 (if isAscii (charAt js i) then charAt js i else 0x3F)
              = Inr (beaconFrame f')" and c': "c' = c1 + 1"
    by (auto simp: pack_step_def Let_def split: sum.splits prod.splits if_splits)
  from chunk_boundary_keeps_header [OF b assms(2)] put_keeps_header [OF p] c'
  show ?thesis by simp
next
  case False
  with assms(1) have p: "put (beaconFrame f) c (if isAscii (charAt js i) then charAt js i else 0x3F)
              = Inr (beaconFrame f')" and c': "c' = c + 1"
    by (auto simp: pack_step_def Let_def split: sum.splits prod.splits if_splits)
  from put_keeps_header [OF p assms(2)] c' assms(2) show ?thesis by simp
qed

lemma pack_loop_keeps_header:
  "pack_loop js i fc = Inr fc' \<Longrightarrow> 36 \<le> snd fc \<Longrightarrow>
   take 36 (beaconFrame (fst fc')) = take 36 (beaconFrame (fst fc))"
proof (induction js i fc rule: pack_loop.induct)
  case (1 js i fc)
  show ?case
  proof (cases "i < essidLength (fst fc)")
    case False
    with "1.prems"(1) show ?thesis by (simp add: pack_loop.simps [of js i fc])
  next
    case True
    with "1.prems"(1) obtain fc1 where step: "pack_step js i fc = Inr fc1"
      and rest: "pack_loop js (i + 1) fc1 = Inr fc'"
      by (auto simp: pack_loop.simps [of js i fc] split: sum.splits)
    from step have "pack_step js i (fst fc, snd fc) = Inr (fst fc1, snd fc1)" by simp
    from pack_step_keeps_header [OF this "1.prems"(2)]
    have k: "take 36 (beaconFrame (fst fc1)) = take 36 (beaconFrame (fst fc))" "36 \<le> snd fc1"
      by simp_all
    from "1.IH" [OF True step rest k(2)] k(1) show ?thesis by simp
  qed
qed

text \<open>
  C6. \<^verbatim>\<open>Frame::pack\<close> returns for every document shorter than 32640 bytes, and
  whenever it returns, whatever the document, the first 36 bytes of the vector are the
  header template: the copy puts them there and the loop writes at the cursor only,
  which starts at 36 and never moves back.
\<close>

theorem pack_header_intact:
  "(length js < 32640 \<longrightarrow> (\<exists>s'. pack js s = Inr s'))
   \<and> (pack js s = Inr s' \<longrightarrow> take 36 (beaconFrame s') = header)"
proof (intro conjI impI)
  assume "length js < 32640"
  from pack_cursor_eq [OF this, of s] show "\<exists>s'. pack js s = Inr s'"
    by (simp add: pack_def)
next
  assume "pack js s = Inr s'"
  then obtain c where pc: "pack_cursor js s = Inr (s', c)"
    by (auto simp: pack_def split: sum.splits)
  then obtain v where mc: "memcpy_header
        (resize_vec (pwngridHeaderLength + length js
           + unat ((of_nat (length js div 255) :: u8) * 2) + chunkSize) (beaconFrame s)) = Inr v"
    and run: "pack_loop js 0
        (s\<lparr>beaconFrame := v, essidLength := length js,
           headerLength := of_nat (length js div 255) * 2\<rparr>, pwngridHeaderLength) = Inr (s', c)"
    by (auto simp: pack_cursor_def Let_def split: sum.splits)
  from mc have v: "take 36 v = header"
    by (auto simp: memcpy_header_def length_header split: if_splits)
  from pack_loop_keeps_header [OF run] v show "take 36 (beaconFrame s') = header"
    by (simp add: pwngridHeaderLength_def length_header)
qed

theorem pack_header_intact_witness:
  "length [0x80 :: u8] < 32640
   \<and> pack [0x80] Frame_init
     = Inr \<lparr>beaconFrame = header @ [IDWhisperPayload, 1, 0x3F] @ replicate 253 0,
            payloadSize = 1, essidLength = 1, headerLength = 0\<rparr>
   \<and> take 36 (header @ [IDWhisperPayload, 1, 0x3F] @ replicate 253 0) = header"
proof -
  have cs: "chunk_stream 255 [ascii_or 0x80] = [IDWhisperPayload, 1, 0x3F]"
    by (simp add: chunk_stream.simps [of _ "[x]" for x] chunk_stream_Nil ascii_or_def isAscii_def)
  have "drop 39 (resize_vec 292 []) = replicate 253 (0 :: u8)"
    by (simp add: resize_vec_def)
  then have p: "pack [0x80] Frame_init
     = Inr \<lparr>beaconFrame = header @ [IDWhisperPayload, 1, 0x3F] @ replicate 253 0,
            payloadSize = 1, essidLength = 1, headerLength = 0\<rparr>"
    using pack_cursor_eq [of "[0x80]" Frame_init]
    by (simp add: pack_def Frame_init_def ascii_or_question_def cs)
  from pack_header_intact [where js = "[0x80]" and s = Frame_init
      and s' = "\<lparr>beaconFrame = header @ [IDWhisperPayload, 1, 0x3F] @ replicate 253 0,
            payloadSize = 1, essidLength = 1, headerLength = 0\<rparr>"] p
  show ?thesis by simp
qed

subsection \<open>The life of payloadSize\<close>

lemma chunk_stream_full:
  "255 \<le> length d \<Longrightarrow>
   chunk_stream p d = IDWhisperPayload # of_nat p # take 255 d @ chunk_stream p (drop 255 d)"
  by (subst chunk_stream.simps) auto

lemma chunk_stream_length_byte:
  "255 * (k + 1) \<le> length d \<Longrightarrow> (chunk_stream p d @ rest) ! (257 * k + 1) = of_nat p"
proof (induction k arbitrary: d)
  case 0
  then show ?case by (simp add: chunk_stream_full)
next
  case (Suc k)
  then have d: "255 \<le> length d" and "255 * (k + 1) \<le> length (drop 255 d)" by simp_all
  from Suc.IH [OF this(2)]
  have IH: "(chunk_stream p (drop 255 d) @ rest) ! (257 * k + 1) = of_nat p" .
  have "257 * Suc k + 1 = Suc (Suc (255 + (257 * k + 1)))" by simp
  moreover have "length (take 255 d) = 255" using d by simp
  ultimately show ?case
    using IH by (simp add: chunk_stream_full [OF d] nth_append del: length_take)
qed

lemma pack_step_payloadSize:
  assumes "pack_step js i (f, c) = Inr (f', c')"
  shows "payloadSize f' =
     (if i mod 255 = 0 \<and> essidLength f - i < 255 then essidLength f - i else payloadSize f)"
  using assms
  by (auto simp: pack_step_def chunk_boundary_def chunkSize_def Let_def
           split: sum.splits prod.splits if_splits)

lemma pack_eq:
  assumes "length js < 32640"
  shows "pack js s =
     Inr (s\<lparr>beaconFrame :=
              header @ chunk_stream (payloadSize s) (ascii_or_question js)
                @ drop (36 + length js + 2 * ((length js + 254) div 255))
                    (resize_vec (291 + length js + 2 * (length js div 255)) (beaconFrame s)),
            payloadSize := (if length js mod 255 \<noteq> 0 then length js mod 255 else payloadSize s),
            essidLength := length js,
            headerLength := of_nat (length js div 255) * 2\<rparr>)"
  by (simp add: pack_def pack_cursor_eq [OF assms])

text \<open>
  C7. In one iteration \<^verbatim>\<open>payloadSize\<close> changes only at a chunk boundary
  (\<open>i mod 255 = 0\<close>) where fewer than 255 bytes remain, and then it becomes that
  remainder. Nothing resets it: after a call it holds \<open>L mod 255\<close> if that is not
  zero and its entry value otherwise, and the next call stores this value as the length
  byte of every chunk that has 255 or more bytes left.
\<close>

theorem payloadSize_persists:
  "(i < essidLength f \<and> pack_step js i (f, c) = Inr (f', c') \<longrightarrow>
      payloadSize f' =
        (if i mod 255 = 0 \<and> essidLength f - i < 255 then essidLength f - i
         else payloadSize f))
   \<and> (length js1 < 32640 \<and> length js2 < 32640 \<longrightarrow>
        (\<exists>s1 s2. pack js1 s = Inr s1 \<and> pack js2 s1 = Inr s2
           \<and> payloadSize s1 =
               (if length js1 mod 255 \<noteq> 0 then length js1 mod 255 else payloadSize s)
           \<and> (\<forall>k. 255 * (k + 1) \<le> length js2 \<longrightarrow>
                  beaconFrame s2 ! (36 + 257 * k + 1) = of_nat (payloadSize s1))))"
proof (intro conjI impI)
  assume "i < essidLength f \<and> pack_step js i (f, c) = Inr (f', c')"
  then have "pack_step js i (f, c) = Inr (f', c')" ..
  then show "payloadSize f' =
        (if i mod 255 = 0 \<and> essidLength f - i < 255 then essidLength f - i
         else payloadSize f)"
    by (rule pack_step_payloadSize)
next
  assume len: "length js1 < 32640 \<and> length js2 < 32640"
  define s1 where "s1 = s\<lparr>beaconFrame :=
              header @ chunk_stream (payloadSize s) (ascii_or_question js1)
                @ drop (36 + length js1 + 2 * ((length js1 + 254) div 255))
                    (resize_vec (291 + length js1 + 2 * (length js1 div 255)) (beaconFrame s)),
            payloadSize := (if length js1 mod 255 \<noteq> 0 then length js1 mod 255 else payloadSize s),
            essidLength := length js1,
            headerLength := of_nat (length js1 div 255) * 2\<rparr>"
  define slack where "slack = drop (36 + length js2 + 2 * ((length js2 + 254) div 255))
                    (resize_vec (291 + length js2 + 2 * (length js2 div 255)) (beaconFrame s1))"
  define s2 where "s2 = s1\<lparr>beaconFrame :=
              header @ chunk_stream (payloadSize s1) (ascii_or_question js2) @ slack,
            payloadSize := (if length js2 mod 255 \<noteq> 0 then length js2 mod 255 else payloadSize s1),
            essidLength := length js2,
            headerLength := of_nat (length js2 div 255) * 2\<rparr>"
  have p1: "pack js1 s = Inr s1"
    using len by (simp add: pack_eq s1_def)
  have p2: "pack js2 s1 = Inr s2"
    using len by (simp add: pack_eq s2_def slack_def)
  have ps: "payloadSize s1 =
      (if length js1 mod 255 \<noteq> 0 then length js1 mod 255 else payloadSize s)"
    by (simp add: s1_def)
  have "beaconFrame s2 ! (36 + 257 * k + 1) = of_nat (payloadSize s1)"
    if "255 * (k + 1) \<le> length js2" for k
  proof -
    have "255 * (k + 1) \<le> length (ascii_or_question js2)"
      using that by (simp add: ascii_or_question_def)
    from chunk_stream_length_byte [OF this, of "payloadSize s1" slack]
    show ?thesis
      by (simp add: s2_def nth_append length_header)
  qed
  with p1 p2 ps
  show "\<exists>s1 s2. pack js1 s = Inr s1 \<and> pack js2 s1 = Inr s2
           \<and> payloadSize s1 =
               (if length js1 mod 255 \<noteq> 0 then length js1 mod 255 else payloadSize s)
           \<and> (\<forall>k. 255 * (k + 1) \<le> length js2 \<longrightarrow>
                  beaconFrame s2 ! (36 + 257 * k + 1) = of_nat (payloadSize s1))"
    by blast
qed

theorem payloadSize_persists_witness:
  "0 < essidLength \<lparr>beaconFrame = [0, 0, 0], payloadSize = 255, essidLength = 1,
                      headerLength = 0 :: u8\<rparr>
   \<and> pack_step [0x41] 0
      (\<lparr>beaconFrame = [0, 0, 0], payloadSize = 255, essidLength = 1, headerLength = 0\<rparr>, 0)
     = Inr (\<lparr>beaconFrame = [0xDE, 1, 0x41], payloadSize = 1, essidLength = 1,
             headerLength = 0\<rparr>, 3)
   \<and> payloadSize \<lparr>beaconFrame = [0xDE, 1, 0x41], payloadSize = 1, essidLength = 1,
             headerLength = 0 :: u8\<rparr> = 1
   \<and> length doc_example < 32640
   \<and> (\<exists>s1 s2. pack doc_example Frame_init = Inr s1 \<and> pack doc_example s1 = Inr s2
          \<and> payloadSize s1 = 75 \<and> beaconFrame s2 ! 37 = 75 \<and> beaconFrame s2 ! 294 = 75)"
proof -
  have st: "pack_step [0x41] 0
      (\<lparr>beaconFrame = [0, 0, 0], payloadSize = 255, essidLength = 1, headerLength = 0\<rparr>, 0)
     = Inr (\<lparr>beaconFrame = [0xDE, 1, 0x41], payloadSize = 1, essidLength = 1,
             headerLength = 0\<rparr>, 3)"
    by (simp add: pack_step_def chunk_boundary_def put_def chunkSize_def charAt_def
          isAscii_def IDWhisperPayload_def)
  note T = payloadSize_persists [where js = "[0x41]" and i = 0 and c = 0 and c' = 3
      and f = "\<lparr>beaconFrame = [0, 0, 0], payloadSize = 255, essidLength = 1, headerLength = 0\<rparr>"
      and f' = "\<lparr>beaconFrame = [0xDE, 1, 0x41], payloadSize = 1, essidLength = 1,
                headerLength = 0\<rparr>"
      and ?js1.0 = doc_example and ?js2.0 = doc_example and s = Frame_init]
  from T obtain s1 s2 where p: "pack doc_example Frame_init = Inr s1"
      "pack doc_example s1 = Inr s2" "payloadSize s1 = 75"
      and all: "\<forall>k. 255 * (k + 1) \<le> length doc_example \<longrightarrow>
                  beaconFrame s2 ! (36 + 257 * k + 1) = of_nat (payloadSize s1)"
    by (auto simp: Frame_init_def length_doc_example)
  from all [rule_format, of 0] all [rule_format, of 1] p(3)
  have "beaconFrame s2 ! 37 = 75" "beaconFrame s2 ! 294 = 75"
    by (simp_all add: length_doc_example)
  with st p show ?thesis by (auto simp: length_doc_example)
qed

subsection \<open>A second call\<close>

text \<open>
  When \<^verbatim>\<open>payloadSize\<close> holds 255 at entry, the length bytes are as they should be:
  255 in every chunk but the last, and in the last chunk \<open>L mod 255\<close>, or 255 when
  \<open>L\<close> is a multiple of 255.
\<close>

lemma pack_length_bytes_default:
  assumes "length js < 32640" and "payloadSize s = 255 \<or> length js < 255"
  shows "\<exists>f c cs. pack_cursor js s = Inr (f, c)
           \<and> parse_chunks (chunk_region (f, c)) = Some cs
           \<and> (\<forall>c \<in> set (butlast cs). len c = 255)
           \<and> (cs \<noteq> [] \<longrightarrow>
                 unat (len (last cs))
                   = (if length js mod 255 = 0 then 255 else length js mod 255))"
proof -
  have "of_nat (payloadSize s) = (255 :: u8) \<or> length (ascii_or_question js) < 255"
    using assms(2) by (auto simp: ascii_or_question_def)
  from parse_chunks_length_bytes [OF this] pack_cursor_region [OF assms(1), of s]
  show ?thesis by (auto simp: ascii_or_question_def)
qed

text \<open>
  Not so on a second call for the same document, when it has 255 bytes or more and its
  length is not a multiple of 255: the first chunk then carries the remainder left by
  the first call.
\<close>

lemma pack_again_first_length_byte:
  assumes "255 \<le> length js" "length js < 32640" "length js mod 255 \<noteq> 0"
  shows "\<exists>s1 s2. pack js s = Inr s1 \<and> pack js s1 = Inr s2
           \<and> beaconFrame s2 ! 36 = IDWhisperPayload
           \<and> beaconFrame s2 ! 37 = of_nat (length js mod 255)"
proof -
  define s1 where "s1 = s\<lparr>beaconFrame :=
              header @ chunk_stream (payloadSize s) (ascii_or_question js)
                @ drop (36 + length js + 2 * ((length js + 254) div 255))
                    (resize_vec (291 + length js + 2 * (length js div 255)) (beaconFrame s)),
            payloadSize := (if length js mod 255 \<noteq> 0 then length js mod 255 else payloadSize s),
            essidLength := length js,
            headerLength := of_nat (length js div 255) * 2\<rparr>"
  have p1: "pack js s = Inr s1"
    using assms(2) by (simp add: pack_eq s1_def)
  have ps: "payloadSize s1 = length js mod 255"
    using assms(3) by (simp add: s1_def)
  have full: "255 \<le> length (ascii_or_question js)"
    using assms(1) by (simp add: ascii_or_question_def)
  show ?thesis
    using pack_eq [OF assms(2), of s1] p1
    by (simp add: ps chunk_stream_full [OF full] nth_append length_header)
qed

lemma chunk_stream_585:
  assumes "length d = 585"
  shows "chunk_stream p d =
     IDWhisperPayload # of_nat p # take 255 d
       @ IDWhisperPayload # of_nat p # take 255 (drop 255 d)
       @ IDWhisperPayload # 75 # drop 510 d"
proof -
  have a: "255 \<le> length d" and b: "255 \<le> length (drop 255 d)"
    using assms by simp_all
  have c: "chunk_stream p (drop 510 d) = IDWhisperPayload # 75 # drop 510 d"
    using assms by (subst chunk_stream.simps) (simp add: chunk_stream_Nil)
  show ?thesis
    by (simp add: chunk_stream_full [OF a] chunk_stream_full [OF b] c)
qed

text \<open>
  C2 fails on the second call for the same 585-byte document. The first call writes the
  length bytes 255, 255, 75 and leaves \<^verbatim>\<open>payloadSize = 75\<close>; the second call
  writes 75, 75, 75: the two full chunks carry the stale remainder, although 255 data
  bytes follow each of them (the markers stay at bytes 36, 293 and 550).
\<close>

theorem pack_again_stale_length:
  "(case pack doc_example Frame_init of
      Inl x \<Rightarrow> Inl x
    | Inr s1 \<Rightarrow>
        (case pack doc_example s1 of
           Inl x \<Rightarrow> Inl x
         | Inr s2 \<Rightarrow>
             Inr (chunk_heads [36, 293, 550] s1, payloadSize s1,
                  chunk_heads [36, 293, 550] s2)))
   = Inr ([[0xDE, 0xFF], [0xDE, 0xFF], [0xDE, 0x4B]], 75,
          [[0xDE, 0x4B], [0xDE, 0x4B], [0xDE, 0x4B]])"
proof -
  define d where "d = ascii_or_question doc_example"
  have l: "length d = 585"
    by (simp add: d_def ascii_or_question_def length_doc_example)
  have t1: "length (take 255 d) = 255" and t2: "length (take 255 (drop 255 d)) = 255"
    using l by simp_all
  have heads: "map (\<lambda>k. take 2 (drop k (header @ chunk_stream p d @ slack))) [36, 293, 550]
      = [[0xDE, of_nat p], [0xDE, of_nat p], [0xDE, 0x4B]]" for p slack
    using t1 t2
    by (simp add: chunk_stream_585 [OF l] length_header IDWhisperPayload_def
          del: length_take length_drop)
  define slack1 where "slack1 = drop 627 (resize_vec 880 (beaconFrame Frame_init))"
  define s1 where "s1 = Frame_init\<lparr>beaconFrame := header @ chunk_stream 255 d @ slack1,
      payloadSize := 75, essidLength := 585, headerLength := 4\<rparr>"
  define slack2 where "slack2 = drop 627 (resize_vec 880 (beaconFrame s1))"
  define s2 where "s2 = s1\<lparr>beaconFrame := header @ chunk_stream 75 d @ slack2\<rparr>"
  have p1: "pack doc_example Frame_init = Inr s1"
    by (simp add: pack_eq length_doc_example s1_def slack1_def d_def Frame_init_def)
  have p2: "pack doc_example s1 = Inr s2"
    by (simp add: pack_eq length_doc_example s2_def slack2_def d_def)
       (simp add: s1_def)
  have b1: "beaconFrame s1 = header @ chunk_stream 255 d @ slack1"
    by (simp add: s1_def)
  have b2: "beaconFrame s2 = header @ chunk_stream 75 d @ slack2"
    by (simp add: s2_def)
  have h1: "chunk_heads [36, 293, 550] s1 = [[0xDE, 0xFF], [0xDE, 0xFF], [0xDE, 0x4B]]"
    unfolding chunk_heads_def b1 heads by simp
  have h2: "chunk_heads [36, 293, 550] s2 = [[0xDE, 0x4B], [0xDE, 0x4B], [0xDE, 0x4B]]"
    unfolding chunk_heads_def b2 heads by simp
  have "payloadSize s1 = 75" by (simp add: s1_def)
  then show ?thesis
    by (simp only: p1 p2 h1 h2 sum.case)
qed




section \<open>Properties of Frame::send and Frame::advertise\<close>

text \<open>
  C3, amended. \<^verbatim>\<open>Frame::send\<close> hands the whole vector to the radio: for a document of
  length \<open>L < 32640\<close> the transmitted size is \<open>36 + L + 2 * (L div 255) + 255\<close>, the
  size of the resize, while the written part ends at the cursor
  \<open>36 + L + 2 * ceil (L / 255)\<close>, at least 253 bytes earlier. Nothing truncates the
  vector between the packing and the transmit call.
\<close>

theorem send_transmits_whole_vector:
  assumes "length (document e) < 32640"
  shows "\<exists>f c. pack_cursor (document e) (statics w) = Inr (f, c)
           \<and> send e w =
               Inr (esp_wifi_80211_tx e (tx_calls w) (beaconFrame f),
                    w\<lparr>statics := f,
                      events := events w @ [Delay 102, Tx (beaconFrame f)],
                      tx_calls := tx_calls w + 1\<rparr>)
           \<and> length (beaconFrame f)
               = 36 + length (document e) + 2 * (length (document e) div 255) + 255
           \<and> c = 36 + length (document e) + 2 * ((length (document e) + 254) div 255)
           \<and> c + 253 \<le> length (beaconFrame f)"
proof -
  have len: "length (chunk_stream (payloadSize (statics w)) (ascii_or_question (document e)))
          = length (document e) + 2 * ((length (document e) + 254) div 255)"
    by (simp add: length_chunk_stream ascii_or_question_def)
  show ?thesis
    using pack_cursor_eq [OF assms, of "statics w"] ceil_le [of "length (document e)"]
    by (simp add: send_def pack_def len length_header length_resize_vec)
qed

theorem send_transmits_whole_vector_witness:
  "length (document (env_A True)) < 32640 \<and>
   (\<exists>f c. pack_cursor (document (env_A True)) (statics world_init) = Inr (f, c)
      \<and> length (beaconFrame f) = 880 \<and> c = 627)"
  using send_transmits_whole_vector [of "env_A True" world_init]
  by (auto simp: env_A_def length_doc_example)

text \<open>
  C3 as stated fails for the 585-byte document: 880 bytes are handed to the radio, not
  the 627 bytes up to the write cursor.
\<close>

theorem send_length_counterexample:
  "(case send (env_A True) world_init of Inl x \<Rightarrow> [] | Inr (ok, w) \<Rightarrow> tx_lengths (events w))
     = [880]
   \<and> written_length (length (document (env_A True))) = 627"
proof -
  have len: "length (chunk_stream 255 (ascii_or_question doc_example)) = 591"
    by (simp add: length_chunk_stream ascii_or_question_def length_doc_example)
  have "(case send (env_A True) world_init of Inl x \<Rightarrow> [] | Inr (ok, w) \<Rightarrow> tx_lengths (events w))
     = [880]"
    by (simp add: send_def env_A_def world_init_def pack_eq length_doc_example len
          length_header length_resize_vec Frame_init_def)
  then show ?thesis
    by (simp add: written_length_def env_A_def pwngridHeaderLength_def length_header
          length_doc_example)
qed

text \<open>
  C8. With \<^verbatim>\<open>Config::advertise\<close> false, \<^verbatim>\<open>Frame::advertise\<close> returns without a
  transmit call: no event is added, the count of transmit calls and the statics of
  Frame are unchanged (the clock was read once).
\<close>

theorem advertise_disabled_no_tx:
  assumes "\<not> Config_advertise e"
  shows "\<exists>w'. advertise e w = Inr w' \<and> events w' = events w
           \<and> tx_calls w' = tx_calls w \<and> statics w' = statics w"
  using assms by (simp add: advertise_def Let_def)

theorem advertise_disabled_no_tx_witness:
  "\<not> Config_advertise (env_A False) \<and>
   (\<exists>w'. advertise (env_A False) world_init = Inr w' \<and> events w' = []
      \<and> tx_calls w' = 0 \<and> statics w' = Frame_init)"
  using advertise_disabled_no_tx [of "env_A False" world_init]
  by (simp add: env_A_def world_init_def)

subsection \<open>The rate lines\<close>

lemma pps_value_exact: "pps_value (\<lambda>x. x) p t = rate p t"
  by (simp add: pps_value_def rate_def)

lemma pps_positive_elapsed:
  assumes "\<forall>n::nat. (r (of_nat n) = 0) = (n = 0)" "t \<noteq> 0"
  shows "fmul r (fdiv r (Finite (r (of_int p))) (Finite (r (of_nat t)))) (Finite (r 1000))
           = pps_value r p t"
proof -
  have "r (of_nat t) \<noteq> 0" using assms by simp
  then show ?thesis by (simp add: pps_value_def)
qed

lemma pps_zero_elapsed:
  assumes "\<forall>n::nat. (r (of_nat n) = 0) = (n = 0)" "1 \<le> p"
  shows "isinf (fmul r (fdiv r (Finite (r (of_int p))) (Finite (r (of_nat 0)))) (Finite (r 1000)))"
proof -
  have z: "r 0 = 0" using assms(1) [rule_format, of 0] by simp
  have "of_int p = (of_nat (nat p) :: real)" using assms(2) by simp
  moreover have "nat p \<noteq> 0" using assms(2) by simp
  ultimately have p: "r (of_int p) \<noteq> 0" using assms(1) by metis
  have k: "r 1000 \<noteq> 0" using assms(1) [rule_format, of 1000] by simp
  show ?thesis
    using p k by (cases "0 < r (of_int p)"; cases "0 < r 1000") (simp_all add: z isinf_def)
qed

text \<open>One iteration, by its three outcomes.\<close>

lemma advertise_step_outcome:
  assumes step: "advertise_step e st (p, w) = Inr (p', w')"
    and r: "\<forall>n::nat. (round32 e (of_nat n) = 0) = (n = 0)" and p: "0 \<le> p"
  shows "\<exists>b tail. events w' = events w @ Delay 102 # Tx b # tail
           \<and> tx_calls w' = tx_calls w + 1
           \<and> (if esp_wifi_80211_tx e (tx_calls w) b then
                 p' = p + 1 \<and> clock_reads w' = clock_reads w + 1
                 \<and> tail = (if unat (millis e (clock_reads w) - st) = 0 then []
                           else rate_events (pps_value (round32 e) (p + 1)
                                  (unat (millis e (clock_reads w) - st))))
               else p' = p \<and> clock_reads w' = clock_reads w
                 \<and> tail = [Serial_println ''(X-X) Advertisment failed to send!''])"
proof -
  from step obtain f where f: "pack (document e) (statics w) = Inr f"
    by (auto simp: advertise_step_def send_def split: sum.splits)
  define b where "b = beaconFrame f"
  define w1 where "w1 = w\<lparr>statics := f, events := events w @ [Delay 102, Tx b],
      tx_calls := tx_calls w + 1\<rparr>"
  have s: "send e w = Inr (esp_wifi_80211_tx e (tx_calls w) b, w1)"
    by (simp add: send_def f w1_def b_def)
  show ?thesis
  proof (cases "esp_wifi_80211_tx e (tx_calls w) b")
    case False
    with step s have "p' = p" "w' = w1\<lparr>events := events w1 @
        [Serial_println ''(X-X) Advertisment failed to send!'']\<rparr>"
      by (simp_all add: advertise_step_def)
    with False show ?thesis
      by (intro exI [of _ b] exI [of _ "[Serial_println ''(X-X) Advertisment failed to send!'']"])
         (simp add: w1_def)
  next
    case True
    define t where "t = unat (millis e (clock_reads w) - st)"
    define v where "v = fmul (round32 e) (fdiv (round32 e) (Finite (round32 e (of_int (p + 1))))
        (Finite (round32 e (of_nat t)))) (Finite (round32 e 1000))"
    define w2 where "w2 = w1\<lparr>clock_reads := clock_reads w1 + 1\<rparr>"
    from step s True have res: "p' = p + 1" "w' = show_pps v w2"
      by (auto simp add: advertise_step_def Let_def v_def t_def w2_def w1_def
            simp del: fdiv.simps fmul.simps of_int_add)
    show ?thesis
    proof (cases "t = 0")
      case z: True
      have "isinf v" unfolding v_def z using r p by (intro pps_zero_elapsed) simp_all
      then have "w' = w2" by (simp add: res show_pps_def)
      with z True res(1) show ?thesis
        by (intro exI [of _ b] exI [of _ "[]"]) (simp add: w2_def w1_def t_def)
    next
      case nz: False
      have v: "v = pps_value (round32 e) (p + 1) t"
        unfolding v_def using r nz by (rule pps_positive_elapsed)
      then have "w' = w2\<lparr>events := events w2 @ rate_events v\<rparr>"
        by (simp add: res show_pps_def isinf_def pps_value_def rate_events_def)
      with nz True res(1) v show ?thesis
        by (intro exI [of _ b] exI [of _ "rate_events v"]) (simp add: w2_def w1_def t_def)
    qed
  qed
qed

lemma rate_events_no_inf:
  "ev \<in> set (rate_events (pps_value r p t)) \<Longrightarrow> shown_pps ev = Some v \<Longrightarrow> \<exists>x. v = Finite x"
  by (auto simp: rate_events_def pps_value_def)

lemma advertise_step_report:
  assumes step: "advertise_step e st (p, w) = Inr (p', w')"
    and r: "\<forall>n::nat. (round32 e (of_nat n) = 0) = (n = 0)" and p: "0 \<le> p"
  shows "0 \<le> p' \<and> (\<exists>seg. events w' = events w @ seg
           \<and> (\<forall>ev \<in> set seg. rate_line_ok e st ev)
           \<and> (\<forall>rest. rate_report e st (clock_reads w) (tx_calls w) p (seg @ rest)
                      = rate_report e st (clock_reads w') (tx_calls w') p' rest))"
proof -
  from advertise_step_outcome [OF step r p] obtain b tail where
    ev: "events w' = events w @ Delay 102 # Tx b # tail" and tx: "tx_calls w' = tx_calls w + 1"
    and out: "if esp_wifi_80211_tx e (tx_calls w) b then
                 p' = p + 1 \<and> clock_reads w' = clock_reads w + 1
                 \<and> tail = (if unat (millis e (clock_reads w) - st) = 0 then []
                           else rate_events (pps_value (round32 e) (p + 1)
                                  (unat (millis e (clock_reads w) - st))))
               else p' = p \<and> clock_reads w' = clock_reads w
                 \<and> tail = [Serial_println ''(X-X) Advertisment failed to send!'']"
    by blast
  define t where "t = unat (millis e (clock_reads w) - st)"
  have p': "0 \<le> p'" using out p by (auto split: if_splits)
  have lines: "\<forall>ev \<in> set (Delay 102 # Tx b # tail). rate_line_ok e st ev"
  proof (cases "esp_wifi_80211_tx e (tx_calls w) b \<and> t \<noteq> 0")
    case True
    then have tail: "tail = rate_events (pps_value (round32 e) (p + 1) t)"
      using out by (simp add: t_def)
    from True have "millis e (clock_reads w) \<noteq> st" by (auto simp: t_def)
    then have "\<exists>k. millis e k \<noteq> st" ..
    then show ?thesis
      unfolding tail rate_line_ok_def
      by (auto simp: rate_events_def pps_value_def)
  next
    case False
    then have "tail = [] \<or> tail = [Serial_println ''(X-X) Advertisment failed to send!'']"
      using out by (auto simp: t_def split: if_splits)
    then show ?thesis by (auto simp: rate_line_ok_def)
  qed
  have rep: "rate_report e st (clock_reads w) (tx_calls w) p ((Delay 102 # Tx b # tail) @ rest)
      = rate_report e st (clock_reads w') (tx_calls w') p' rest" for rest
    using out tx by (auto simp: Let_def rate_events_def split: if_splits)
  from p' ev lines rep show ?thesis by blast
qed

lemma advertise_loop_report:
  "advertise_loop e st i pw = Inr pw' \<Longrightarrow> 0 \<le> fst pw \<Longrightarrow>
   \<forall>n::nat. (round32 e (of_nat n) = 0) = (n = 0) \<Longrightarrow>
   \<exists>evs. events (snd pw') = events (snd pw) @ evs
     \<and> (\<forall>ev \<in> set evs. rate_line_ok e st ev)
     \<and> (\<forall>rest. rate_report e st (clock_reads (snd pw)) (tx_calls (snd pw)) (fst pw) (evs @ rest)
              = rate_report e st (clock_reads (snd pw')) (tx_calls (snd pw')) (fst pw') rest)"
proof (induction e st i pw rule: advertise_loop.induct)
  case (1 e st i pw)
  show ?case
  proof (cases "i < 150")
    case False
    with "1.prems"(1) have "pw' = pw" by (simp add: advertise_loop.simps [of e st i pw])
    then show ?thesis by simp
  next
    case True
    with "1.prems"(1) obtain pw1 where step: "advertise_step e st pw = Inr pw1"
      and rest: "advertise_loop e st (i + 1) pw1 = Inr pw'"
      by (auto simp: advertise_loop.simps [of e st i pw] split: sum.splits)
    from step have "advertise_step e st (fst pw, snd pw) = Inr (fst pw1, snd pw1)" by simp
    from advertise_step_report [OF this "1.prems"(3) "1.prems"(2)] obtain seg where
      one: "0 \<le> fst pw1" "events (snd pw1) = events (snd pw) @ seg"
        "\<forall>ev \<in> set seg. rate_line_ok e st ev"
        "\<And>X. rate_report e st (clock_reads (snd pw)) (tx_calls (snd pw)) (fst pw) (seg @ X)
              = rate_report e st (clock_reads (snd pw1)) (tx_calls (snd pw1)) (fst pw1) X"
      by blast
    from "1.IH" [OF True step rest one(1) "1.prems"(3)] obtain evs where
      two: "events (snd pw') = events (snd pw1) @ evs" "\<forall>ev \<in> set evs. rate_line_ok e st ev"
        "\<And>X. rate_report e st (clock_reads (snd pw1)) (tx_calls (snd pw1)) (fst pw1) (evs @ X)
              = rate_report e st (clock_reads (snd pw')) (tx_calls (snd pw')) (fst pw') X"
      by blast
    have "events (snd pw') = events (snd pw) @ (seg @ evs)" by (simp add: one(2) two(1))
    moreover have "\<forall>ev \<in> set (seg @ evs). rate_line_ok e st ev" using one(3) two(2) by auto
    moreover have "rate_report e st (clock_reads (snd pw)) (tx_calls (snd pw)) (fst pw)
          ((seg @ evs) @ X)
        = rate_report e st (clock_reads (snd pw')) (tx_calls (snd pw')) (fst pw') X" for X
      using one(4) [of "evs @ X"] two(3) [of X] by simp
    ultimately show ?thesis by blast
  qed
qed

lemma advertise_step_returns:
  assumes "length (document e) < 32640"
  shows "\<exists>pw'. advertise_step e st pw = Inr pw'"
proof -
  obtain p w where pw: "pw = (p, w)" by (cases pw)
  from pack_eq [OF assms, of "statics w"] obtain f where "pack (document e) (statics w) = Inr f"
    by blast
  then show ?thesis
    by (simp add: pw advertise_step_def send_def Let_def)
qed

lemma advertise_loop_returns:
  assumes "length (document e) < 32640"
  shows "\<exists>pw'. advertise_loop e st i pw = Inr pw'"
proof (induction "150 - i" arbitrary: i pw)
  case 0
  then show ?case by (simp add: advertise_loop.simps [of e st i pw])
next
  case (Suc n)
  from advertise_step_returns [OF assms, of st pw] obtain pw1 where
    step: "advertise_step e st pw = Inr pw1" ..
  from Suc.hyps(2) have "n = 150 - (i + 1)" "i < 150" by simp_all
  from Suc.hyps(1) [OF this(1), of pw1] obtain pw' where
    "advertise_loop e st (i + 1) pw1 = Inr pw'" ..
  with step \<open>i < 150\<close> show ?case
    by (simp add: advertise_loop.simps [of e st i pw])
qed

lemma advertise_returns:
  assumes "length (document e) < 32640"
  shows "\<exists>w'. advertise e w = Inr w'"
proof (cases "Config_advertise e")
  case False
  then show ?thesis by (simp add: advertise_def Let_def)
next
  case True
  from advertise_loop_returns [OF assms]
  obtain pw' where "advertise_loop e (millis e (clock_reads w)) 0
     (0, w\<lparr>clock_reads := clock_reads w + 1,
            events := events w @
                             [Serial_println ''(>-<) Starting advertisment...'',
                              Serial_println '' '',
                              Display_update ''(>-<)'' ''Starting advertisment...'',
                              Delay 250]\<rparr>) = Inr pw'" by blast
  with True show ?thesis
    by (cases pw') (simp add: advertise_def Let_def)
qed

text \<open>
  C9. \<^verbatim>\<open>Frame::advertise\<close> returns, and its rate lines are these and no others: after
  each transmit call that returns \<^verbatim>\<open>ESP_OK\<close> the clock is read, and unless that
  reading equals the start time (elapsed time zero: no rate line) the serial line and
  the display show \<^verbatim>\<open>packets / (float)elapsed * 1000\<close>, where \<open>packets\<close> is the
  number of transmit calls that have returned \<^verbatim>\<open>ESP_OK\<close> so far and \<open>elapsed\<close> the
  milliseconds from the start time to that reading. Every rate shown is finite. The
  value is the one the code computes, each step rounded to \<^verbatim>\<open>float\<close>; without
  rounding it is successes divided by elapsed seconds. Of the rounding the theorem
  assumes only that it takes no natural number but 0 to 0.
\<close>

theorem advertise_pps_finite:
  assumes "length (document e) < 32640"
    and "\<forall>n::nat. (round32 e (of_nat n) = 0) = (n = 0)"
  shows "(\<exists>w' evs. advertise e w = Inr w' \<and> events w' = events w @ evs
           \<and> rate_report e (millis e (clock_reads w)) (clock_reads w + 1) (tx_calls w) 0 evs
           \<and> (\<forall>ev \<in> set evs. \<forall>v. shown_pps ev = Some v \<longrightarrow> (\<exists>x. v = Finite x))
           \<and> ((\<forall>k. millis e k = millis e (clock_reads w)) \<longrightarrow>
                 (\<forall>ev \<in> set evs. shown_pps ev = None)))
         \<and> pps_value (\<lambda>x. x) p t = rate p t"
proof -
  define st where "st = millis e (clock_reads w)"
  from advertise_returns [OF assms(1), of w] obtain w' where w': "advertise e w = Inr w'" ..
  have main: "\<exists>evs. events w' = events w @ evs
      \<and> rate_report e st (clock_reads w + 1) (tx_calls w) 0 evs
      \<and> (\<forall>ev \<in> set evs. rate_line_ok e st ev)"
  proof (cases "Config_advertise e")
    case False
    with w' have "events w' = events w @ []" by (auto simp: advertise_def Let_def)
    then show ?thesis by force
  next
    case True
    define start where "start = [Serial_println ''(>-<) Starting advertisment...'',
        Serial_println '' '', Display_update ''(>-<)'' ''Starting advertisment...'', Delay 250]"
    define finish where "finish = [Serial_println '' '',
        Serial_println ''(^-^) Advertisment finished!'', Serial_println '' '',
        Display_update ''(^-^)'' ''Advertisment finished!'']"
    define w0 where "w0 = w\<lparr>clock_reads := clock_reads w + 1, events := events w @ start\<rparr>"
    from w' True obtain packets w1 where
      loop: "advertise_loop e st 0 (0, w0) = Inr (packets, w1)"
      and res: "w' = w1\<lparr>events := events w1 @ finish\<rparr>"
      by (auto simp: advertise_def Let_def st_def w0_def start_def finish_def split: sum.splits)
    from advertise_loop_report [OF loop _ assms(2)] obtain evs where
      evs: "events w1 = events w0 @ evs" "\<forall>ev \<in> set evs. rate_line_ok e st ev"
        "\<And>X. rate_report e st (clock_reads w0) (tx_calls w0) 0 (evs @ X)
              = rate_report e st (clock_reads w1) (tx_calls w1) packets X"
      by auto
    have "rate_report e st (clock_reads w + 1) (tx_calls w) 0 (start @ evs @ finish)
        = rate_report e st (clock_reads w0) (tx_calls w0) 0 (evs @ finish)"
      by (simp add: start_def w0_def)
    also have "\<dots> = rate_report e st (clock_reads w1) (tx_calls w1) packets finish"
      by (rule evs(3))
    also have "\<dots>" by (simp add: finish_def)
    finally have "rate_report e st (clock_reads w + 1) (tx_calls w) 0 (start @ evs @ finish)" .
    moreover have "\<forall>ev \<in> set (start @ evs @ finish). rate_line_ok e st ev"
      using evs(2) by (auto simp: start_def finish_def rate_line_ok_def)
    moreover have "events w' = events w @ (start @ evs @ finish)"
      by (simp add: res evs(1) w0_def)
    ultimately show ?thesis by blast
  qed
  then obtain evs where evs: "events w' = events w @ evs"
    "rate_report e st (clock_reads w + 1) (tx_calls w) 0 evs"
    "\<forall>ev \<in> set evs. rate_line_ok e st ev"
    by blast
  have fin: "\<forall>ev \<in> set evs. \<forall>v. shown_pps ev = Some v \<longrightarrow> (\<exists>x. v = Finite x)"
    using evs(3) unfolding rate_line_ok_def by blast
  have "\<forall>ev \<in> set evs. shown_pps ev = None" if "\<forall>k. millis e k = st"
  proof
    fix ev assume "ev \<in> set evs"
    with evs(3) have "rate_line_ok e st ev" by blast
    with that show "shown_pps ev = None"
      by (cases "shown_pps ev") (auto simp: rate_line_ok_def)
  qed
  with w' evs(1,2) fin show ?thesis
    unfolding st_def [symmetric] pps_value_exact by blast
qed

text \<open>
  A run where the radio refuses the first frame: the first rate shown is for one
  success, in the second iteration.
\<close>

lemma advertise_env_C:
  "\<exists>w'. advertise env_C world_init = Inr w'
     \<and> Serial_println ''(X-X) Advertisment failed to send!'' \<in> set (events w')
     \<and> Serial_print_float (rate 1 102) \<in> set (events w')"
proof -
  define start where "start = [Serial_println ''(>-<) Starting advertisment...'',
      Serial_println '' '', Display_update ''(>-<)'' ''Starting advertisment...'', Delay 250]"
  define w0 where "w0 = world_init\<lparr>clock_reads := 1, events := start\<rparr>"
  have len: "length (document env_C) < 32640" by (simp add: env_C_def length_doc_example)
  have r: "\<forall>n::nat. (round32 env_C (of_nat n) = 0) = (n = 0)" by (simp add: env_C_def)
  from advertise_step_returns [OF len, of 0 "(0, w0)"] obtain p1 w1 where
    s1: "advertise_step env_C 0 (0, w0) = Inr (p1, w1)" by (metis surj_pair)
  from advertise_step_outcome [OF s1 r]
  have o1: "p1 = 0" "clock_reads w1 = 1" "tx_calls w1 = 1"
    "Serial_println ''(X-X) Advertisment failed to send!'' \<in> set (events w1)"
    by (auto simp: env_C_def w0_def world_init_def)
  from advertise_step_returns [OF len, of 0 "(0, w1)"] obtain p2 w2 where
    s2: "advertise_step env_C 0 (0, w1) = Inr (p2, w2)" by (metis surj_pair)
  from advertise_step_outcome [OF s2 r]
  have o2: "p2 = 1" "set (events w1) \<subseteq> set (events w2)"
    "Serial_print_float (pps_value (\<lambda>x. x) 1 102) \<in> set (events w2)"
    by (auto simp: env_C_def o1 rate_events_def)
  from advertise_loop_returns [OF len, of 0 2 "(1, w2)"] obtain p3 w3 where
    l3: "advertise_loop env_C 0 2 (1, w2) = Inr (p3, w3)" by (metis surj_pair)
  from advertise_loop_report [OF l3 _ r] have o3: "set (events w2) \<subseteq> set (events w3)"
    by auto
  have l0: "advertise_loop env_C 0 0 (0, w0) = Inr (p3, w3)"
    using s1 s2 l3 o1(1) o2(1)
    by (simp add: advertise_loop.simps [of _ _ 0] advertise_loop.simps [of _ _ "Suc 0"]
          numeral_2_eq_2)
  have "advertise env_C world_init = Inr (w3\<lparr>events := events w3 @ [Serial_println '' '',
                            Serial_println ''(^-^) Advertisment finished!'',
                            Serial_println '' '',
                            Display_update ''(^-^)'' ''Advertisment finished!'']\<rparr>)"
    using l0 by (simp add: advertise_def Let_def env_C_def world_init_def w0_def start_def)
  with o1(4) o2(2,3) o3 show ?thesis
    by (auto simp: pps_value_exact)
qed

theorem advertise_pps_finite_witness:
  "length (document env_C) < 32640
   \<and> (\<forall>n::nat. (round32 env_C (of_nat n) = 0) = (n = 0))
   \<and> (\<exists>w'. advertise env_C world_init = Inr w'
        \<and> Serial_println ''(X-X) Advertisment failed to send!'' \<in> set (events w')
        \<and> Serial_print_float (rate 1 102) \<in> set (events w')
        \<and> rate_report env_C 0 1 0 0 (events w'))
   \<and> length (document (env_A True)) < 32640
   \<and> (\<forall>k. millis (env_A True) k = millis (env_A True) (clock_reads world_init))
   \<and> (\<exists>w'. advertise (env_A True) world_init = Inr w'
        \<and> list_all (\<lambda>ev. shown_pps ev = None) (events w'))"
proof (intro conjI)
  show lC: "length (document env_C) < 32640" by (simp add: env_C_def length_doc_example)
  show rC: "\<forall>n::nat. (round32 env_C (of_nat n) = 0) = (n = 0)" by (simp add: env_C_def)
  show lA: "length (document (env_A True)) < 32640" by (simp add: env_A_def length_doc_example)
  show still: "\<forall>k. millis (env_A True) k = millis (env_A True) (clock_reads world_init)"
    by (simp add: env_A_def)
  from advertise_env_C obtain w' where w': "advertise env_C world_init = Inr w'"
    "Serial_println ''(X-X) Advertisment failed to send!'' \<in> set (events w')"
    "Serial_print_float (rate 1 102) \<in> set (events w')" by blast
  from advertise_pps_finite [OF lC rC, where w = world_init, THEN conjunct1] w'(1)
  have "rate_report env_C 0 1 0 0 (events w')"
    by (auto simp: world_init_def env_C_def)
  with w' show "\<exists>w'. advertise env_C world_init = Inr w'
        \<and> Serial_println ''(X-X) Advertisment failed to send!'' \<in> set (events w')
        \<and> Serial_print_float (rate 1 102) \<in> set (events w')
        \<and> rate_report env_C 0 1 0 0 (events w')" by blast
  have rA: "\<forall>n::nat. (round32 (env_A True) (of_nat n) = 0) = (n = 0)" by (simp add: env_A_def)
  from advertise_pps_finite [OF lA rA, where w = world_init, THEN conjunct1] still
  obtain w' where
    a: "advertise (env_A True) world_init = Inr w'"
    "\<forall>ev \<in> set (events w'). shown_pps ev = None"
    "rate_report (env_A True) 0 1 0 0 (events w')"
    by (auto simp: world_init_def env_A_def)
  show "\<exists>w'. advertise (env_A True) world_init = Inr w'
        \<and> list_all (\<lambda>ev. shown_pps ev = None) (events w')"
    using a(1,2) by (auto simp: list_all_iff)
qed

end
